theory Spec2Isabelle
  imports Complex_Main "HOL-Library.Multiset"
begin

section \<open>BLOOMS BOT: classifier, concept extractor, paper assembler, paper editing\<close>

text \<open>
  A shallow embedding of the Python modules \<^verbatim>\<open>blooms_classifier.py\<close>,
  \<^verbatim>\<open>question_generator.py\<close>, \<^verbatim>\<open>paper_generator.py\<close>,
  \<^verbatim>\<open>database.py\<close> and of the paper-editing routes of \<^verbatim>\<open>app.py\<close>.

  Python's \<^verbatim>\<open>int\<close> is \<^typ>\<open>int\<close>. Python's \<^verbatim>\<open>float\<close> arithmetic
  is modelled by exact arithmetic in \<^typ>\<open>rat\<close>; each place where binary rounding could
  matter is discussed where it occurs. Text is \<^typ>\<open>string\<close>; the character classes of
  the regular expressions are the ASCII ones.
\<close>

subsection \<open>Difficulty (\<^verbatim>\<open>blooms_classifier.determine_difficulty\<close>)\<close>

text \<open>The dictionary \<^verbatim>\<open>bloom_difficulty\<close> local to \<^verbatim>\<open>determine_difficulty\<close>.\<close>

definition bloom_difficulty :: "string \<rightharpoonup> int" where
  "bloom_difficulty = map_of
     [(''Remember'', 1), (''Understand'', 2), (''Apply'', 3),
      (''Analyze'', 4), (''Evaluate'', 5), (''Create'', 6)]"

text \<open>
  \<^verbatim>\<open>bloom_difficulty.get(bloom_level, 2)\<close>, the three-way test on the marks, the weighted
  sum and the two thresholds. The constants \<^verbatim>\<open>0.6\<close>, \<^verbatim>\<open>0.4\<close>, \<^verbatim>\<open>2.5\<close>
  and \<^verbatim>\<open>4.5\<close> are the rationals \<open>6/10\<close>, \<open>4/10\<close>, \<open>5/2\<close> and \<open>9/2\<close>. The
  weighted sum takes only the values \<open>(6 * b + 4 * t) / 10\<close> with \<open>1 \<le> b \<le> 6\<close> and
  \<open>1 \<le> t \<le> 3\<close>; the numerator is even, so each value is at least \<open>1/10\<close> away from both
  thresholds and the rounding of binary floating point cannot change a comparison.
\<close>

definition determine_difficulty :: "string \<Rightarrow> int \<Rightarrow> string" where
  "determine_difficulty bloom_level marks =
     (let bloom_score = (case bloom_difficulty bloom_level of Some w \<Rightarrow> w | None \<Rightarrow> 2);
          marks_score = (if marks \<le> 2 then 1 else if marks \<le> 5 then 2 else (3::int));
          combined_score = (rat_of_int bloom_score * (6 / 10)) + (rat_of_int marks_score * (4 / 10))
      in if combined_score \<le> 5 / 2 then ''Easy''
         else if combined_score \<le> 9 / 2 then ''Medium''
         else ''Hard'')"

text \<open>
  The specification's wording of the same rule, over the closed enumeration of the six
  levels: an ordinal weight, a marks tier, the combined score and its two thresholds.
\<close>

datatype bloom = Remember | Understand | Apply | Analyze | Evaluate | Create

fun level_name :: "bloom \<Rightarrow> string" where
  "level_name Remember = ''Remember''"
| "level_name Understand = ''Understand''"
| "level_name Apply = ''Apply''"
| "level_name Analyze = ''Analyze''"
| "level_name Evaluate = ''Evaluate''"
| "level_name Create = ''Create''"

fun spec_bloom_weight :: "bloom \<Rightarrow> rat" where
  "spec_bloom_weight Remember = 1"
| "spec_bloom_weight Understand = 2"
| "spec_bloom_weight Apply = 3"
| "spec_bloom_weight Analyze = 4"
| "spec_bloom_weight Evaluate = 5"
| "spec_bloom_weight Create = 6"

definition spec_marks_tier :: "int \<Rightarrow> rat" where
  "spec_marks_tier marks = (if marks \<le> 2 then 1 else if marks \<le> 5 then 2 else 3)"

definition spec_combined :: "bloom \<Rightarrow> int \<Rightarrow> rat" where
  "spec_combined l marks = 6 / 10 * spec_bloom_weight l + 4 / 10 * spec_marks_tier marks"

definition spec_difficulty :: "bloom \<Rightarrow> int \<Rightarrow> string" where
  "spec_difficulty l marks =
     (if spec_combined l marks \<le> 5 / 2 then ''Easy''
      else if spec_combined l marks \<le> 9 / 2 then ''Medium''
      else ''Hard'')"

subsection \<open>Bloom level (\<^verbatim>\<open>blooms_classifier.determine_bloom_level\<close>)\<close>

text \<open>
  The dictionary \<^verbatim>\<open>BLOOM_KEYWORDS\<close>. A Python dictionary iterates in insertion order,
  which decides ties below, so it is an association list in the order of the source.
\<close>

definition BLOOM_KEYWORDS :: "(string \<times> string list) list" where
  "BLOOM_KEYWORDS =
    [(''Remember'',
      [''define'', ''list'', ''state'', ''identify'', ''name'', ''label'', ''recall'',
       ''recognize'', ''select'', ''what is'', ''who'', ''when'', ''where'', ''match'',
       ''choose'', ''find'', ''show'', ''spell'', ''tell'', ''write'']),
     (''Understand'',
      [''explain'', ''describe'', ''summarize'', ''discuss'', ''interpret'', ''paraphrase'',
       ''illustrate'', ''classify'', ''compare'', ''translate'', ''outline'', ''review'',
       ''restate'', ''express'', ''locate'', ''report'', ''recognize'', ''give example'']),
     (''Apply'',
      [''apply'', ''demonstrate'', ''use'', ''implement'', ''solve'', ''show'', ''execute'',
       ''construct'', ''compute'', ''modify'', ''operate'', ''prepare'', ''produce'',
       ''relate'', ''develop'', ''organize'', ''utilize'', ''sketch'', ''calculate'']),
     (''Analyze'',
      [''analyze'', ''examine'', ''compare'', ''contrast'', ''distinguish'', ''differentiate'',
       ''investigate'', ''categorize'', ''breakdown'', ''separate'', ''infer'', ''arrange'',
       ''classify'', ''order'', ''connect'', ''divide'', ''select'', ''survey'', ''inspect'']),
     (''Evaluate'',
      [''evaluate'', ''assess'', ''judge'', ''critique'', ''justify'', ''argue'', ''defend'',
       ''support'', ''rate'', ''prioritize'', ''recommend'', ''conclude'', ''predict'',
       ''criticize'', ''weigh'', ''measure'', ''validate'', ''prove'', ''disprove'']),
     (''Create'',
      [''create'', ''design'', ''develop'', ''construct'', ''plan'', ''produce'', ''invent'',
       ''formulate'', ''propose'', ''compose'', ''generate'', ''derive'', ''modify'',
       ''assemble'', ''set up'', ''devise'', ''imagine'', ''integrate'', ''synthesize''])]"

text \<open>
  Characters. A text is a list of 8-bit characters; \<^verbatim>\<open>str.lower\<close>, \<^verbatim>\<open>\w\<close> and
  \<^verbatim>\<open>\s\<close> are modelled on ASCII, where \<^verbatim>\<open>\w\<close> is a letter, a digit or the
  underscore. (Python also lowers and counts as word characters the letters beyond
  ASCII; the theorems below do not depend on which characters are word characters.)
\<close>

definition lower_char :: "char \<Rightarrow> char" where
  "lower_char c = (let k = (of_char c :: nat) in if 65 \<le> k \<and> k \<le> 90 then char_of (k + 32) else c)"

definition lower :: "string \<Rightarrow> string" where
  "lower s = map lower_char s"

definition is_word_char :: "char \<Rightarrow> bool" where
  "is_word_char c =
     (let k = (of_char c :: nat)
      in (48 \<le> k \<and> k \<le> 57) \<or> (65 \<le> k \<and> k \<le> 90) \<or> k = 95 \<or> (97 \<le> k \<and> k \<le> 122))"

definition is_space_char :: "char \<Rightarrow> bool" where
  "is_space_char c = (let k = (of_char c :: nat) in (9 \<le> k \<and> k \<le> 13) \<or> (28 \<le> k \<and> k \<le> 32))"

text \<open>
  The assertion \<^verbatim>\<open>\b\<close> between the character before a position and the character
  at it (\<open>None\<close> at either end of the text): exactly one of the two is a word character.
\<close>

definition word_boundary :: "char option \<Rightarrow> char option \<Rightarrow> bool" where
  "word_boundary prev following =
     ((case prev of None \<Rightarrow> False | Some c \<Rightarrow> is_word_char c)
      \<noteq> (case following of None \<Rightarrow> False | Some c \<Rightarrow> is_word_char c))"

definition first_char :: "string \<Rightarrow> char option" where
  "first_char s = (case s of [] \<Rightarrow> None | c # _ \<Rightarrow> Some c)"

text \<open>
  \<^verbatim>\<open>re.search(r'\b' + re.escape(keyword) + r'\b', text)\<close>: the escaped keyword matches
  itself, so the pattern matches at a position when a word boundary, the keyword and
  another word boundary follow each other there. \<open>strip_prefix\<close> reads the keyword at a
  position and gives the text after it; \<open>match_here\<close> tries one position, with the
  character before it; \<open>search_word\<close> tries the positions from left to right.
\<close>

fun strip_prefix :: "string \<Rightarrow> string \<Rightarrow> string option" where
  "strip_prefix [] rest = Some rest"
| "strip_prefix (k # ks) [] = None"
| "strip_prefix (k # ks) (c # cs) = (if k = c then strip_prefix ks cs else None)"

definition match_here :: "char option \<Rightarrow> string \<Rightarrow> string \<Rightarrow> bool" where
  "match_here prev keyword rest =
     (case strip_prefix keyword rest of
        None \<Rightarrow> False
      | Some behind \<Rightarrow>
          word_boundary prev (first_char rest)
          \<and> word_boundary (if keyword = [] then prev else Some (last keyword)) (first_char behind))"

fun search_word :: "char option \<Rightarrow> string \<Rightarrow> string \<Rightarrow> bool" where
  "search_word prev keyword [] = match_here prev keyword []"
| "search_word prev keyword (c # rest) =
     (if match_here prev keyword (c # rest) then True else search_word (Some c) keyword rest)"

text \<open>The score of a level: the number of its keywords found in the lowered text.\<close>

definition level_score :: "string \<Rightarrow> string list \<Rightarrow> nat" where
  "level_score question_lower keywords =
     length (filter (\<lambda>keyword. search_word None keyword question_lower) keywords)"

definition level_scores :: "string \<Rightarrow> (string \<times> nat) list" where
  "level_scores question_lower =
     map (\<lambda>(level, keywords). (level, level_score question_lower keywords)) BLOOM_KEYWORDS"

text \<open>
  Python's \<^verbatim>\<open>max(iterable, key=f)\<close> on a non-empty iterable: the first element is kept
  until a later one has a strictly greater key.
\<close>

definition py_max_key :: "('a \<Rightarrow> nat) \<Rightarrow> 'a \<Rightarrow> 'a list \<Rightarrow> 'a" where
  "py_max_key f x xs = foldl (\<lambda>best y. if f y > f best then y else best) x xs"

text \<open>
  Substring test (\<^verbatim>\<open>'work' in question_lower\<close>) and the anchored patterns of
  \<^verbatim>\<open>classify_by_heuristics\<close>: one of the given words, then a whitespace character.
\<close>

fun contains :: "string \<Rightarrow> string \<Rightarrow> bool" where
  "contains [] sub = (sub = [])"
| "contains (c # cs) sub =
     (case strip_prefix sub (c # cs) of Some _ \<Rightarrow> True | None \<Rightarrow> contains cs sub)"

definition starts_with_word :: "string list \<Rightarrow> string \<Rightarrow> bool" where
  "starts_with_word ws s =
     list_ex (\<lambda>w. case strip_prefix w s of
                    None \<Rightarrow> False
                  | Some behind \<Rightarrow> (case behind of [] \<Rightarrow> False | c # _ \<Rightarrow> is_space_char c)) ws"

definition classify_by_heuristics :: "string \<Rightarrow> string" where
  "classify_by_heuristics question_text =
     (let question_lower = lower question_text in
      if starts_with_word [''what'', ''who'', ''when'', ''where''] question_lower then ''Remember''
      else if starts_with_word [''how''] question_lower
      then (if contains question_lower ''work'' \<or> contains question_lower ''implement''
            then ''Apply'' else ''Understand'')
      else if starts_with_word [''why''] question_lower
      then (if length question_text > 100 then ''Analyze'' else ''Understand'')
      else if contains question_lower ''explain'' \<or> contains question_lower ''describe''
      then ''Understand''
      else if contains question_lower ''compare'' \<or> contains question_lower ''contrast''
              \<or> contains question_lower ''difference''
      then ''Analyze''
      else if contains question_lower ''design'' \<or> contains question_lower ''create''
              \<or> contains question_lower ''develop''
      then ''Create''
      else ''Understand'')"

text \<open>
  \<^verbatim>\<open>determine_bloom_level\<close>. \<^verbatim>\<open>max(level_scores, key=level_scores.get)\<close> iterates
  over the keys of the dictionary, in insertion order.
\<close>

definition score_of :: "(string \<times> nat) list \<Rightarrow> string \<Rightarrow> nat" where
  "score_of scores level = (case map_of scores level of None \<Rightarrow> 0 | Some k \<Rightarrow> k)"

definition determine_bloom_level :: "string \<Rightarrow> string" where
  "determine_bloom_level question_text =
     (let question_lower = lower question_text;
          scores = level_scores question_lower
      in if Max (set (map snd scores)) = 0 then classify_by_heuristics question_text
         else py_max_key (score_of scores) (hd (map fst scores)) (tl (map fst scores)))"

text \<open>
  The levels in the order of the dictionary, and the score of a level for a question text:
  the number of the level's keywords that occur in the lowered text as whole words.
\<close>

definition bloom_order :: "string list" where
  "bloom_order = [''Remember'', ''Understand'', ''Apply'', ''Analyze'', ''Evaluate'', ''Create'']"

definition keyword_count :: "string \<Rightarrow> string \<Rightarrow> nat" where
  "keyword_count question_text level = score_of (level_scores (lower question_text)) level"

text \<open>
  The keywords of a level, and what the specification calls a whole-word occurrence of a
  keyword in a text: the keyword occurs, the character before the occurrence (if there
  is one) is not a word character, and neither is the character after it.
\<close>

definition keywords_of :: "string \<Rightarrow> string list" where
  "keywords_of level = (case map_of BLOOM_KEYWORDS level of None \<Rightarrow> [] | Some keywords \<Rightarrow> keywords)"

definition spec_whole_word :: "string \<Rightarrow> string \<Rightarrow> bool" where
  "spec_whole_word keyword s =
     (\<exists>pre post. s = pre @ keyword @ post
        \<and> (pre = [] \<or> \<not> is_word_char (last pre))
        \<and> (post = [] \<or> \<not> is_word_char (hd post)))"

text \<open>\<^verbatim>\<open>classify_question\<close>: the pair of the level and the difficulty.\<close>

definition classify_question :: "string \<Rightarrow> int \<Rightarrow> string \<times> string" where
  "classify_question question_text marks =
     (let bloom_level = determine_bloom_level question_text
      in (bloom_level, determine_difficulty bloom_level marks))"

subsection \<open>Concept extraction (\<^verbatim>\<open>question_generator.extract_key_concepts\<close>)\<close>

text \<open>
  The character classes \<^verbatim>\<open>[A-Z]\<close> and \<^verbatim>\<open>[a-z]\<close>.
\<close>

definition is_upper_char :: "char \<Rightarrow> bool" where
  "is_upper_char c = (let k = (of_char c :: nat) in 65 \<le> k \<and> k \<le> 90)"

definition is_lower_char :: "char \<Rightarrow> bool" where
  "is_lower_char c = (let k = (of_char c :: nat) in 97 \<le> k \<and> k \<le> 122)"

definition next_not_word :: "string \<Rightarrow> bool" where
  "next_not_word rest = (case rest of [] \<Rightarrow> True | c # _ \<Rightarrow> \<not> is_word_char c)"

text \<open>
  \<^verbatim>\<open>re.findall\<close>: the text is scanned from left to right; where the pattern matches,
  the match is reported and the scan goes on behind it, otherwise it goes on at the next
  character. A matcher \<open>m\<close> gets the character before the position and the text from the
  position on, and gives the length of the match (never zero for the patterns here) and
  the string to report. \<open>skip\<close> counts the characters of the last match still to pass.
\<close>

fun findall_scan ::
  "(char option \<Rightarrow> string \<Rightarrow> (nat \<times> string) option) \<Rightarrow> nat \<Rightarrow> char option \<Rightarrow> string
   \<Rightarrow> string list" where
  "findall_scan m skip prev [] = []"
| "findall_scan m skip prev (c # cs) =
     (if skip > 0 then findall_scan m (skip - 1) (Some c) cs
      else (case m prev (c # cs) of
              None \<Rightarrow> findall_scan m 0 (Some c) cs
            | Some (n, reported) \<Rightarrow> reported # findall_scan m (n - 1) (Some c) cs))"

definition findall :: "(char option \<Rightarrow> string \<Rightarrow> (nat \<times> string) option) \<Rightarrow> string \<Rightarrow> string list" where
  "findall m s = findall_scan m 0 None s"

text \<open>
  The pattern \<^verbatim>\<open>\b[A-Z][a-z]+(?:\s+[A-Z][a-z]+){0,3}\b\<close>. \<open>cap_word\<close> is
  \<^verbatim>\<open>[A-Z][a-z]+\<close> with the longest run of lower-case letters; a shorter run is never
  part of a match, because it is followed by a lower-case letter, where neither
  \<^verbatim>\<open>\s\<close> nor \<^verbatim>\<open>\b\<close> matches. \<open>cap_groups\<close> is the greedy repetition with
  its backtracking: one more group is tried first, and the match ends here (at a word
  boundary) when that does not lead to a match.
\<close>

definition cap_word :: "string \<Rightarrow> (string \<times> string) option" where
  "cap_word s =
     (case s of
        [] \<Rightarrow> None
      | c # cs \<Rightarrow>
          if is_upper_char c
          then (case takeWhile is_lower_char cs of
                  [] \<Rightarrow> None
                | l # ls \<Rightarrow> Some (c # l # ls, dropWhile is_lower_char cs))
          else None)"

definition cap_group :: "string \<Rightarrow> (string \<times> string) option" where
  "cap_group rest =
     (case takeWhile is_space_char rest of
        [] \<Rightarrow> None
      | w # ws \<Rightarrow>
          (case cap_word (dropWhile is_space_char rest) of
             None \<Rightarrow> None
           | Some (word, rest') \<Rightarrow> Some (w # ws @ word, rest')))"

definition end_here :: "string \<Rightarrow> (string \<times> string) option" where
  "end_here rest = (if next_not_word rest then Some ([], rest) else None)"

fun cap_groups :: "nat \<Rightarrow> string \<Rightarrow> (string \<times> string) option" where
  "cap_groups 0 rest = end_here rest"
| "cap_groups (Suc n) rest =
     (case cap_group rest of
        None \<Rightarrow> end_here rest
      | Some (g, rest') \<Rightarrow>
          (case cap_groups n rest' of
             None \<Rightarrow> end_here rest
           | Some (more, rest'') \<Rightarrow> Some (g @ more, rest'')))"

definition match_technical_term :: "char option \<Rightarrow> string \<Rightarrow> (nat \<times> string) option" where
  "match_technical_term prev s =
     (if word_boundary prev (first_char s)
      then (case cap_word s of
              None \<Rightarrow> None
            | Some (word, rest) \<Rightarrow>
                (case cap_groups 3 rest of
                   None \<Rightarrow> None
                 | Some (more, _) \<Rightarrow> Some (length (word @ more), word @ more)))
      else None)"

text \<open>
  The marker patterns, matched with \<^verbatim>\<open>re.IGNORECASE\<close>: a literal, an optional
  character of a class, \<^verbatim>\<open>\s+\<close>, and the reported group
  \<^verbatim>\<open>(\w+(?:\s+\w+){0,2})\<close>. Nothing follows the group, so every greedy choice
  stands. A marker is the pair of its literal, in lower case, and the characters of its
  optional class.
\<close>

definition markers :: "(string \<times> string) list" where
  "markers =
     [(''define'', ''sd''), (''concept of'', ''''), (''called'', ''''),
      (''known as'', ''''), (''refers to'', ''''), (''meaning of'', '''')]"

fun strip_prefix_ci :: "string \<Rightarrow> string \<Rightarrow> string option" where
  "strip_prefix_ci [] rest = Some rest"
| "strip_prefix_ci (k # ks) [] = None"
| "strip_prefix_ci (k # ks) (c # cs) = (if k = lower_char c then strip_prefix_ci ks cs else None)"

fun more_words :: "nat \<Rightarrow> string \<Rightarrow> string" where
  "more_words 0 rest = []"
| "more_words (Suc n) rest =
     (case takeWhile is_space_char rest of
        [] \<Rightarrow> []
      | w # ws \<Rightarrow>
          (case takeWhile is_word_char (dropWhile is_space_char rest) of
             [] \<Rightarrow> []
           | l # ls \<Rightarrow>
               (w # ws) @ (l # ls)
               @ more_words n (dropWhile is_word_char (dropWhile is_space_char rest))))"

text \<open>The part \<^verbatim>\<open>\s+(\w+(?:\s+\w+){0,2})\<close>: the length matched and the group.\<close>

definition space_then_words :: "string \<Rightarrow> (nat \<times> string) option" where
  "space_then_words rest =
     (case takeWhile is_space_char rest of
        [] \<Rightarrow> None
      | w # ws \<Rightarrow>
          (case takeWhile is_word_char (dropWhile is_space_char rest) of
             [] \<Rightarrow> None
           | l # ls \<Rightarrow>
               (let group = (l # ls)
                      @ more_words 2 (dropWhile is_word_char (dropWhile is_space_char rest))
                in Some (length (w # ws) + length group, group))))"

definition match_marker :: "string \<times> string \<Rightarrow> char option \<Rightarrow> string \<Rightarrow> (nat \<times> string) option" where
  "match_marker marker prev s =
     (case strip_prefix_ci (fst marker) s of
        None \<Rightarrow> None
      | Some rest \<Rightarrow>
          (case (case rest of
                   [] \<Rightarrow> None
                 | c # cs \<Rightarrow>
                     if lower_char c \<in> set (snd marker)
                     then map_option (\<lambda>(n, g). (Suc n, g)) (space_then_words cs)
                     else None) of
             Some (n, g) \<Rightarrow> Some (length (fst marker) + n, g)
           | None \<Rightarrow> map_option (\<lambda>(n, g). (length (fst marker) + n, g)) (space_then_words rest)))"

text \<open>The pattern \<^verbatim>\<open>\b[A-Z][a-z]{3,}\b\<close>.\<close>

definition match_long_word :: "char option \<Rightarrow> string \<Rightarrow> (nat \<times> string) option" where
  "match_long_word prev s =
     (if word_boundary prev (first_char s)
      then (case cap_word s of
              None \<Rightarrow> None
            | Some (word, rest) \<Rightarrow>
                if length word \<ge> 4 \<and> next_not_word rest then Some (length word, word) else None)
      else None)"

text \<open>
  The dictionary \<^verbatim>\<open>word_freq\<close>, in insertion order, and the ten most frequent words:
  \<^verbatim>\<open>sorted(..., reverse=True)\<close> is stable, as \<open>sort_key\<close> on the negated count is.
\<close>

fun bump :: "string \<Rightarrow> (string \<times> nat) list \<Rightarrow> (string \<times> nat) list" where
  "bump word [] = [(word, 1)]"
| "bump word ((k, n) # word_freq) =
     (if k = word then (k, n + 1) # word_freq else (k, n) # bump word word_freq)"

definition frequent_terms :: "string list \<Rightarrow> string list" where
  "frequent_terms words =
     map fst (take 10 (sort_key (\<lambda>item. - int (snd item)) (foldl (\<lambda>word_freq word. bump word word_freq) [] words)))"

text \<open>\<^verbatim>\<open>str.strip()\<close>.\<close>

definition strip :: "string \<Rightarrow> string" where
  "strip s = rev (dropWhile is_space_char (rev (dropWhile is_space_char s)))"

text \<open>The list \<^verbatim>\<open>concepts\<close> before it is made a set: the three methods, then the cleaning.\<close>

definition collected_concepts :: "string \<Rightarrow> string list" where
  "collected_concepts text =
     findall match_technical_term text
     @ concat (map (\<lambda>marker. findall (match_marker marker) text) markers)
     @ frequent_terms (findall match_long_word text)"

definition cleaned_concepts :: "string \<Rightarrow> string list" where
  "cleaned_concepts text =
     map strip (filter (\<lambda>c. length (strip c) > 3) (collected_concepts text))"

text \<open>
  \<^verbatim>\<open>list(set(...))\<close>. The order in which a Python set of strings is iterated is given
  by the hashes of the strings, which the interpreter salts anew in each process. It is
  the argument \<open>set_order\<close>: a function that lists the elements of a list once each, in
  some order.
\<close>

definition valid_set_order :: "(string list \<Rightarrow> string list) \<Rightarrow> bool" where
  "valid_set_order set_order = (\<forall>xs. distinct (set_order xs) \<and> set (set_order xs) = set xs)"

definition extract_key_concepts :: "(string list \<Rightarrow> string list) \<Rightarrow> string \<Rightarrow> string list" where
  "extract_key_concepts set_order text = take 15 (set_order (cleaned_concepts text))"

subsection \<open>Questions and the question table (\<^verbatim>\<open>database.py\<close>)\<close>

text \<open>
  A row of the table \<^verbatim>\<open>questions\<close>, as the dictionary \<^verbatim>\<open>dict(q)\<close> the code
  works with. The key \<^verbatim>\<open>id\<close> is the field \<open>qid\<close>. The columns
  \<^verbatim>\<open>document_id\<close> and \<^verbatim>\<open>created_date\<close> are never read by the functions
  modelled here and are left out.
\<close>

record question =
  qid :: int
  unit :: string
  question :: string
  marks :: int
  bloom_level :: string
  difficulty :: string

text \<open>
  \<^verbatim>\<open>get_questions_by_filters(unit=None, bloom_level=None, difficulty=None, marks=None)\<close>
  over the rows \<open>db\<close> of the table. A filter is added with \<^verbatim>\<open>if unit:\<close>, that is
  when the argument is truthy: neither \<^verbatim>\<open>None\<close>, nor the empty string, nor the
  integer zero.
\<close>

definition truthy_str :: "string option \<Rightarrow> bool" where
  "truthy_str a = (case a of None \<Rightarrow> False | Some s \<Rightarrow> s \<noteq> [])"

definition truthy_int :: "int option \<Rightarrow> bool" where
  "truthy_int a = (case a of None \<Rightarrow> False | Some n \<Rightarrow> n \<noteq> 0)"

definition get_questions_by_filters ::
  "question list \<Rightarrow> string option \<Rightarrow> string option \<Rightarrow> string option \<Rightarrow> int option
   \<Rightarrow> question list" where
  "get_questions_by_filters db unit_arg bloom_level_arg difficulty_arg marks_arg =
     filter (\<lambda>q. (truthy_str unit_arg \<longrightarrow> Some (unit q) = unit_arg)
              \<and> (truthy_str bloom_level_arg \<longrightarrow> Some (bloom_level q) = bloom_level_arg)
              \<and> (truthy_str difficulty_arg \<longrightarrow> Some (difficulty q) = difficulty_arg)
              \<and> (truthy_int marks_arg \<longrightarrow> Some (marks q) = marks_arg)) db"

subsection \<open>Paper assembler (\<^verbatim>\<open>paper_generator.py\<close>)\<close>

text \<open>The only exception the assembler can raise: a division by zero in the fitness score.\<close>

datatype error = ZeroDivisionError

text \<open>
  \<^verbatim>\<open>organize_questions\<close>: a dictionary from \<^verbatim>\<open>(unit, marks, bloom_level)\<close> to the
  list of questions with that key. Python dictionaries iterate in insertion order, which
  \<^verbatim>\<open>find_best_candidate\<close> relies on, so the dictionary is an association list.
\<close>

type_synonym criteria = "string \<times> int \<times> string"

fun append_to_key :: "criteria \<Rightarrow> question \<Rightarrow> (criteria \<times> question list) list
    \<Rightarrow> (criteria \<times> question list) list" where
  "append_to_key key q [] = [(key, [q])]"
| "append_to_key key q ((k, l) # organized) =
     (if k = key then (k, l @ [q]) # organized else (k, l) # append_to_key key q organized)"

definition organize_questions :: "question list \<Rightarrow> (criteria \<times> question list) list" where
  "organize_questions questions =
     foldl (\<lambda>organized q. append_to_key (unit q, marks q, bloom_level q) q organized) [] questions"

text \<open>Python's true division \<^verbatim>\<open>a / b\<close>, which raises when the divisor is zero.\<close>

definition py_truediv :: "rat \<Rightarrow> rat \<Rightarrow> error + rat" where
  "py_truediv a b = (if b = 0 then Inl ZeroDivisionError else Inr (a / b))"

text \<open>
  \<^verbatim>\<open>calculate_fitness_score\<close>. The three terms are evaluated in the order of the source,
  so the first division by zero is the one raised. The score is a \<^verbatim>\<open>float\<close> in the
  source and an exact rational here: rounding can change which of two nearly equal
  candidates wins, and nothing else.
\<close>

definition calculate_fitness_score ::
  "question \<Rightarrow> (string \<rightharpoonup> int) \<Rightarrow> (string \<rightharpoonup> rat) \<Rightarrow> int \<Rightarrow> error + rat" where
  "calculate_fitness_score q unit_distribution bloom_targets remaining_marks =
     (case (case unit_distribution (unit q) of
              None \<Rightarrow> Inr 0
            | Some unit_need \<Rightarrow>
                if unit_need > 0
                then (case py_truediv (of_int unit_need) (of_int (marks q)) of
                        Inl e \<Rightarrow> Inl e | Inr r \<Rightarrow> Inr (min 10 r))
                else Inr 0) of
        Inl e \<Rightarrow> Inl e
      | Inr unit_score \<Rightarrow>
     (case (case bloom_targets (bloom_level q) of
              None \<Rightarrow> Inr 0
            | Some bloom_need \<Rightarrow>
                if bloom_need > 0
                then (case py_truediv bloom_need (of_int (marks q)) of
                        Inl e \<Rightarrow> Inl e | Inr r \<Rightarrow> Inr (min 10 r))
                else Inr 0) of
        Inl e \<Rightarrow> Inl e
      | Inr bloom_score \<Rightarrow>
     (case py_truediv (of_int \<bar>remaining_marks - marks q\<bar>) (of_int remaining_marks) of
        Inl e \<Rightarrow> Inl e
      | Inr r \<Rightarrow> Inr (unit_score + bloom_score + (1 - r) * 2))))"

text \<open>
  The two nested loops of \<^verbatim>\<open>find_best_candidate\<close> visit the questions of the organised
  dictionary key by key; \<open>scan_candidates\<close> is their body over that sequence.
\<close>

fun scan_candidates ::
  "question list \<Rightarrow> int list \<Rightarrow> int \<Rightarrow> (string \<rightharpoonup> int) \<Rightarrow> (string \<rightharpoonup> rat)
   \<Rightarrow> error + (rat \<times> question) list" where
  "scan_candidates [] selected_ids remaining_marks unit_distribution bloom_targets = Inr []"
| "scan_candidates (q # qs) selected_ids remaining_marks unit_distribution bloom_targets =
     (if qid q \<in> set selected_ids
      then scan_candidates qs selected_ids remaining_marks unit_distribution bloom_targets
      else if marks q > remaining_marks
      then scan_candidates qs selected_ids remaining_marks unit_distribution bloom_targets
      else (case calculate_fitness_score q unit_distribution bloom_targets remaining_marks of
              Inl e \<Rightarrow> Inl e
            | Inr score \<Rightarrow>
                (case scan_candidates qs selected_ids remaining_marks unit_distribution bloom_targets of
                   Inl e \<Rightarrow> Inl e
                 | Inr candidates \<Rightarrow> Inr ((score, q) # candidates))))"

text \<open>
  \<^verbatim>\<open>find_best_candidate\<close>. Python's \<^verbatim>\<open>sort(key=..., reverse=True)\<close> is stable,
  so the head of the sorted list is the first candidate, in scanning order, with the
  greatest score; \<open>sort_key\<close> on the negated score is the same stable sort. The argument
  \<open>remaining_count\<close> is not used by the source either.
\<close>

definition find_best_candidate ::
  "(criteria \<times> question list) list \<Rightarrow> question list \<Rightarrow> int \<Rightarrow> (string \<rightharpoonup> int)
   \<Rightarrow> (string \<rightharpoonup> rat) \<Rightarrow> int \<Rightarrow> error + question option" where
  "find_best_candidate questions_by_criteria selected remaining_marks unit_distribution
       bloom_targets remaining_count =
     (let selected_ids = map qid selected in
      case scan_candidates (concat (map snd questions_by_criteria)) selected_ids
             remaining_marks unit_distribution bloom_targets of
        Inl e \<Rightarrow> Inl e
      | Inr candidates \<Rightarrow>
          if candidates = [] then Inr None
          else Inr (Some (snd (hd (sort_key (\<lambda>c. - fst c) candidates)))))"

text \<open>
  The variables of the selection loop of \<^verbatim>\<open>generate_paper\<close>. The dictionary
  \<open>unit_distribution\<close> is the caller's own object, updated in place; \<open>bloom_targets\<close> is a
  dictionary local to the call.
\<close>

record loop_state =
  selected_questions :: "question list"
  remaining_marks :: int
  attempts :: nat
  unit_distribution :: "string \<rightharpoonup> int"
  bloom_targets :: "string \<rightharpoonup> rat"

definition max_attempts :: nat where
  "max_attempts = 1000"

text \<open>The loop condition.\<close>

definition loop_guard :: "int \<Rightarrow> loop_state \<Rightarrow> bool" where
  "loop_guard num_questions s =
     (int (length (selected_questions s)) < num_questions \<and> remaining_marks s > 0
      \<and> attempts s < max_attempts)"

text \<open>The branch \<^verbatim>\<open>if candidate:\<close> of the loop body.\<close>

definition select_candidate :: "question \<Rightarrow> loop_state \<Rightarrow> loop_state" where
  "select_candidate candidate s =
     s\<lparr>selected_questions := selected_questions s @ [candidate],
       remaining_marks := remaining_marks s - marks candidate,
       unit_distribution :=
         (case unit_distribution s (unit candidate) of
            None \<Rightarrow> unit_distribution s
          | Some v \<Rightarrow> (unit_distribution s)(unit candidate \<mapsto> v - marks candidate)),
       bloom_targets :=
         (case bloom_targets s (bloom_level candidate) of
            None \<Rightarrow> bloom_targets s
          | Some v \<Rightarrow> (bloom_targets s)(bloom_level candidate \<mapsto> v - of_int (marks candidate)))\<rparr>"

text \<open>
  The \<^verbatim>\<open>while\<close> loop. It returns the variables as they are when the loop is left, and
  the exception if one was raised (the in-place updates made before it remain).
\<close>

function selection_loop ::
  "(criteria \<times> question list) list \<Rightarrow> int \<Rightarrow> loop_state \<Rightarrow> error option \<times> loop_state" where
  "selection_loop questions_by_criteria num_questions s =
     (if loop_guard num_questions s
      then (case find_best_candidate questions_by_criteria (selected_questions s)
                   (remaining_marks s) (unit_distribution s) (bloom_targets s)
                   (num_questions - int (length (selected_questions s))) of
              Inl e \<Rightarrow> (Some e, s\<lparr>attempts := attempts s + 1\<rparr>)
            | Inr None \<Rightarrow> (None, s\<lparr>attempts := attempts s + 1\<rparr>)
            | Inr (Some candidate) \<Rightarrow>
                selection_loop questions_by_criteria num_questions
                  (select_candidate candidate (s\<lparr>attempts := attempts s + 1\<rparr>)))
      else (None, s))"
  by pat_completeness auto
termination
  by (relation "measure (\<lambda>(questions_by_criteria, num_questions, s). max_attempts - attempts s)")
     (auto simp: loop_guard_def select_candidate_def)

text \<open>
  \<^verbatim>\<open>generate_paper_relaxed\<close>. The outcome of \<^verbatim>\<open>random.shuffle\<close> is the argument
  \<open>shuffle\<close>, a function that rearranges a list. The bound \<^verbatim>\<open>target_marks * 1.1\<close> is
  the rational \<open>target_marks * 11/10\<close>. The list \<^verbatim>\<open>questions_sorted\<close> of the source
  is never used; the variable \<^verbatim>\<open>total\<close> is \<open>total'\<close>.
\<close>

fun relaxed_loop :: "question list \<Rightarrow> int \<Rightarrow> int \<Rightarrow> question list \<Rightarrow> int \<Rightarrow> question list" where
  "relaxed_loop [] target_marks target_count selected total' = selected"
| "relaxed_loop (q # available) target_marks target_count selected total' =
     (if int (length selected) \<ge> target_count then selected
      else if rat_of_int (total' + marks q) \<le> rat_of_int target_marks * (11 / 10)
      then relaxed_loop available target_marks target_count (selected @ [q]) (total' + marks q)
      else relaxed_loop available target_marks target_count selected total')"

definition generate_paper_relaxed ::
  "(question list \<Rightarrow> question list) \<Rightarrow> question list \<Rightarrow> int \<Rightarrow> int \<Rightarrow> question list option" where
  "generate_paper_relaxed shuffle questions target_marks target_count =
     (let available = shuffle questions;
          selected = relaxed_loop available target_marks target_count [] 0
      in if length selected \<ge> 3 then Some selected else None)"

text \<open>
  \<^verbatim>\<open>generate_paper\<close>. The first component of the result is what the call returns or
  raises. The other two are the caller's dictionaries \<^verbatim>\<open>unit_distribution\<close> and
  \<^verbatim>\<open>bloom_distribution\<close> as they are after the call.
\<close>

definition initial_state :: "int \<Rightarrow> (string \<rightharpoonup> int) \<Rightarrow> (string \<rightharpoonup> int) \<Rightarrow> loop_state" where
  "initial_state total_marks unit_dist bloom_distribution =
     \<lparr>selected_questions = [], remaining_marks = total_marks, attempts = 0,
      unit_distribution = unit_dist,
      bloom_targets = (\<lambda>level. map_option (\<lambda>percentage. rat_of_int percentage / 100 * rat_of_int total_marks)
                         (bloom_distribution level))\<rparr>"

definition primary_selection ::
  "question list \<Rightarrow> int \<Rightarrow> int \<Rightarrow> (string \<rightharpoonup> int) \<Rightarrow> (string \<rightharpoonup> int)
   \<Rightarrow> error option \<times> loop_state" where
  "primary_selection all_questions total_marks num_questions unit_dist bloom_distribution =
     selection_loop (organize_questions all_questions) num_questions
       (initial_state total_marks unit_dist bloom_distribution)"

definition reasonable_paper :: "question list \<Rightarrow> int \<Rightarrow> bool" where
  "reasonable_paper selected num_questions =
     (rat_of_int (int (length selected)) \<ge> max 3 (rat_of_int num_questions * (7 / 10)))"

definition generate_paper ::
  "(question list \<Rightarrow> question list) \<Rightarrow> question list \<Rightarrow> int \<Rightarrow> int
   \<Rightarrow> (string \<rightharpoonup> int) \<Rightarrow> (string \<rightharpoonup> int)
   \<Rightarrow> (error + question list option) \<times> (string \<rightharpoonup> int) \<times> (string \<rightharpoonup> int)" where
  "generate_paper shuffle db total_marks num_questions unit_dist bloom_distribution =
     (let all_questions = get_questions_by_filters db None None None None in
      if all_questions = [] then (Inr None, unit_dist, bloom_distribution)
      else (case primary_selection all_questions total_marks num_questions unit_dist
                   bloom_distribution of
              (Some e, s) \<Rightarrow> (Inl e, unit_distribution s, bloom_distribution)
            | (None, s) \<Rightarrow>
                if reasonable_paper (selected_questions s) num_questions
                then (Inr (Some (selected_questions s)), unit_distribution s, bloom_distribution)
                else (Inr (generate_paper_relaxed shuffle all_questions total_marks num_questions),
                      unit_distribution s, bloom_distribution)))"

subsection \<open>Properties of a selection, stated on the model\<close>

text \<open>
  Every question of \<open>sel\<close> fitted the budget that was left when it was chosen: the
  budget at the moment the \<open>i\<close>-th question is chosen is the total minus the marks of
  the questions chosen before it.
\<close>

definition within_budget :: "int \<Rightarrow> question list \<Rightarrow> bool" where
  "within_budget total_marks sel =
     (\<forall>i<length sel. marks (sel ! i) \<le> total_marks - sum_list (map marks (take i sel)))"

text \<open>The invariant of the selection loop, for the pool \<open>pool\<close> and the budget \<open>tm\<close>.\<close>

definition loop_inv :: "question list \<Rightarrow> int \<Rightarrow> loop_state \<Rightarrow> bool" where
  "loop_inv pool tm s =
     (distinct (map qid (selected_questions s)) \<and> set (selected_questions s) \<subseteq> set pool
      \<and> remaining_marks s = tm - sum_list (map marks (selected_questions s))
      \<and> within_budget tm (selected_questions s)
      \<and> attempts s \<le> max_attempts)"

text \<open>
  Every question the relaxed fallback accepted kept the running total within the bound:
  the total after accepting the \<open>i\<close>-th question is the sum of the first \<open>i + 1\<close>.
\<close>

definition relaxed_within_bound :: "int \<Rightarrow> question list \<Rightarrow> bool" where
  "relaxed_within_bound target_marks sel =
     (\<forall>i<length sel. rat_of_int (sum_list (map marks (take (Suc i) sel))) \<le> rat_of_int target_marks * (11 / 10))"


text \<open>The marks of the questions of \<open>sel\<close> that belong to a unit, or to a Bloom level.\<close>

definition unit_marks :: "string \<Rightarrow> question list \<Rightarrow> int" where
  "unit_marks u sel = sum_list (map marks (filter (\<lambda>q. unit q = u) sel))"

definition bloom_marks :: "string \<Rightarrow> question list \<Rightarrow> int" where
  "bloom_marks l sel = sum_list (map marks (filter (\<lambda>q. bloom_level q = l) sel))"

text \<open>
  The two dictionaries of needs hold the initial need minus the marks selected so far:
  \<open>ud\<close> and \<open>bd\<close> are the caller's dictionaries as they were when the call began.
\<close>

definition needs_inv :: "int \<Rightarrow> (string \<rightharpoonup> int) \<Rightarrow> (string \<rightharpoonup> int) \<Rightarrow> loop_state \<Rightarrow> bool" where
  "needs_inv tm ud bd s =
     ((\<forall>u. unit_distribution s u = map_option (\<lambda>v. v - unit_marks u (selected_questions s)) (ud u))
      \<and> (\<forall>l. bloom_targets s l =
            map_option (\<lambda>p. rat_of_int p / 100 * rat_of_int tm - rat_of_int (bloom_marks l (selected_questions s)))
              (bd l)))"

subsection \<open>A small pool and constraint set, for concrete evaluation\<close>

definition q1 :: question where
  "q1 = \<lparr>qid = 1, unit = ''Unit 1'', question = ''Define Stack.'', marks = 2,
          bloom_level = ''Remember'', difficulty = ''Easy''\<rparr>"

definition q2 :: question where
  "q2 = \<lparr>qid = 2, unit = ''Unit 1'', question = ''Explain Queue in your own words.'', marks = 5,
          bloom_level = ''Understand'', difficulty = ''Easy''\<rparr>"

definition q3 :: question where
  "q3 = \<lparr>qid = 3, unit = ''Unit 2'', question = ''Apply the principles of Hashing to solve a practical problem.'',
          marks = 10, bloom_level = ''Apply'', difficulty = ''Medium''\<rparr>"

definition q4 :: question where
  "q4 = \<lparr>qid = 4, unit = ''Unit 2'', question = ''Describe the concept of Graph.'', marks = 5,
          bloom_level = ''Understand'', difficulty = ''Easy''\<rparr>"

definition sample_pool :: "question list" where
  "sample_pool = [q1, q2, q3, q4]"

definition sample_units :: "string \<rightharpoonup> int" where
  "sample_units = [''Unit 1'' \<mapsto> 10, ''Unit 2'' \<mapsto> 10]"

definition sample_blooms :: "string \<rightharpoonup> int" where
  "sample_blooms = [''Remember'' \<mapsto> 10, ''Understand'' \<mapsto> 50, ''Apply'' \<mapsto> 40]"

definition q5 :: question where
  "q5 = \<lparr>qid = 5, unit = ''Unit 2'', question = ''Summarize the main points of Graph.'', marks = 5,
          bloom_level = ''Understand'', difficulty = ''Easy''\<rparr>"

definition sample_db :: "question list" where
  "sample_db = [q1, q2, q3, q4, q5]"

subsection \<open>Editing the current paper (\<^verbatim>\<open>app.py\<close>)\<close>

text \<open>
  The routes \<^verbatim>\<open>replace_question\<close> and \<^verbatim>\<open>remove_question\<close> read the current paper
  from the session file, and write it back when they succeed. The paper is an argument
  here and the written paper is part of the result. The two error responses of
  \<^verbatim>\<open>replace_question\<close> are \<^verbatim>\<open>404 Question not found\<close> and
  \<^verbatim>\<open>400 No alternative questions available\<close>.
\<close>

datatype route_error = NotFound | NoAlternative

text \<open>
  The second loop of \<^verbatim>\<open>replace_question\<close>: the first question with the given id is
  overwritten, and the loop is left.
\<close>

fun replace_first :: "int \<Rightarrow> question \<Rightarrow> question list \<Rightarrow> question list" where
  "replace_first question_id replacement [] = []"
| "replace_first question_id replacement (q # paper_questions) =
     (if qid q = question_id then replacement # paper_questions
      else q # replace_first question_id replacement paper_questions)"

text \<open>
  \<^verbatim>\<open>replace_question\<close>. The first loop is \<open>find\<close>: it keeps the first question with
  the given id. The result is the paper written to the session file and the replacement
  reported to the client.
\<close>

definition replace_question ::
  "question list \<Rightarrow> question list \<Rightarrow> int \<Rightarrow> route_error + question list \<times> question" where
  "replace_question db paper_questions question_id =
     (case find (\<lambda>q. qid q = question_id) paper_questions of
        None \<Rightarrow> Inl NotFound
      | Some question_to_replace \<Rightarrow>
          (let alternatives = get_questions_by_filters db
                 (Some (unit question_to_replace)) (Some (bloom_level question_to_replace))
                 None (Some (marks question_to_replace));
               selected_ids = map qid paper_questions;
               alternatives' = filter (\<lambda>q. qid q \<notin> set selected_ids) alternatives
           in if alternatives' = [] then Inl NoAlternative
              else (let replacement = hd alternatives'
                    in Inr (replace_first question_id replacement paper_questions, replacement))))"

text \<open>
  \<^verbatim>\<open>remove_question\<close>: the paper is filtered and written back, and the response is
  always \<^verbatim>\<open>{'success': True}\<close>; the route has no error response.
\<close>

definition remove_question :: "question list \<Rightarrow> int \<Rightarrow> route_error + question list" where
  "remove_question paper_questions question_id =
     Inr (filter (\<lambda>q. qid q \<noteq> question_id) paper_questions)"

section \<open>Theorems\<close>

subsection \<open>Difficulty\<close>

lemma bloom_difficulty_names:
  "bloom_difficulty ''Remember'' = Some 1" "bloom_difficulty ''Understand'' = Some 2"
  "bloom_difficulty ''Apply'' = Some 3" "bloom_difficulty ''Analyze'' = Some 4"
  "bloom_difficulty ''Evaluate'' = Some 5" "bloom_difficulty ''Create'' = Some 6"
  by (simp_all add: bloom_difficulty_def)

text \<open>
  Claim C7. For each of the six Bloom levels and every integer marks value, the difficulty
  computed by \<^verbatim>\<open>determine_difficulty\<close> is the one the specification's rule gives:
  combined = 0.6 times the level's weight (Remember 1 up to Create 6) plus 0.4 times the
  marks tier (marks at most 2 gives 1, at most 5 gives 2, otherwise 3); combined at most
  2.5 is Easy, at most 4.5 is Medium, otherwise Hard. In particular (Remember, 1) is Easy
  with combined score 1, (Create, 10) is Hard with 4.8 and (Apply, 5) is Medium with 2.6.
\<close>

theorem determine_difficulty_spec:
  "determine_difficulty (level_name l) m = spec_difficulty l m
   \<and> spec_combined Remember 1 = 1 \<and> determine_difficulty ''Remember'' 1 = ''Easy''
   \<and> spec_combined Create 10 = 48 / 10 \<and> determine_difficulty ''Create'' 10 = ''Hard''
   \<and> spec_combined Apply 5 = 26 / 10 \<and> determine_difficulty ''Apply'' 5 = ''Medium''"
proof -
  have general: "determine_difficulty (level_name l) m = spec_difficulty l m"
    by (cases l)
       (simp_all add: determine_difficulty_def spec_difficulty_def spec_combined_def
          spec_marks_tier_def bloom_difficulty_names Let_def)
  have ex: "spec_combined Remember 1 = 1" "spec_combined Create 10 = 48 / 10"
      "spec_combined Apply 5 = 26 / 10"
    by (simp_all add: spec_combined_def spec_marks_tier_def)
  have ex2: "determine_difficulty ''Remember'' 1 = ''Easy''"
      "determine_difficulty ''Create'' 10 = ''Hard''"
      "determine_difficulty ''Apply'' 5 = ''Medium''"
    by (simp_all add: determine_difficulty_def bloom_difficulty_names Let_def)
  from general ex ex2 show ?thesis by simp
qed

subsection \<open>The selection loop: auxiliary facts\<close>

declare selection_loop.simps [simp del]

lemma get_all_questions: "get_questions_by_filters db None None None None = db"
  by (simp add: get_questions_by_filters_def truthy_str_def truthy_int_def)

lemma set_append_to_key:
  "set (concat (map snd (append_to_key key q organized))) = insert q (set (concat (map snd organized)))"
  by (induction key q organized rule: append_to_key.induct) (auto simp del: set_concat)

lemma set_foldl_append_to_key:
  "set (concat (map snd (foldl (\<lambda>organized q. append_to_key (unit q, marks q, bloom_level q) q organized) acc questions)))
   = set (concat (map snd acc)) \<union> set questions"
  by (induction questions arbitrary: acc) (auto simp: set_append_to_key simp del: set_concat)

lemma set_organize_questions:
  "set (concat (map snd (organize_questions questions))) = set questions"
  by (simp add: organize_questions_def set_foldl_append_to_key del: set_concat)

lemma scan_candidates_sound:
  "scan_candidates qs ids rem ud bt = Inr cs \<Longrightarrow> c \<in> set cs \<Longrightarrow>
     snd c \<in> set qs \<and> qid (snd c) \<notin> set ids \<and> marks (snd c) \<le> rem"
  by (induction qs arbitrary: cs) (auto split: if_splits sum.splits)

lemma hd_sort_key_in_set: "cs \<noteq> [] \<Longrightarrow> hd (sort_key f cs) \<in> set cs"
  by (metis hd_in_set set_sort length_greater_0_conv length_sort)

lemma find_best_candidate_sound:
  assumes "find_best_candidate qbc selected rem ud bt rc = Inr (Some c)"
  shows "c \<in> set (concat (map snd qbc)) \<and> qid c \<notin> set (map qid selected) \<and> marks c \<le> rem"
proof -
  from assms obtain cs where cs: "scan_candidates (concat (map snd qbc)) (map qid selected) rem ud bt = Inr cs"
    and ne: "cs \<noteq> []" and c: "c = snd (hd (sort_key (\<lambda>c. - fst c) cs))"
    by (auto simp: find_best_candidate_def Let_def split: sum.splits if_splits)
  have "hd (sort_key (\<lambda>c. - fst c) cs) \<in> set cs" using ne by (rule hd_sort_key_in_set)
  from scan_candidates_sound[OF cs this] c show ?thesis by simp
qed

lemma selection_loop_rule:
  assumes init: "I s"
    and step: "\<And>s c. I s \<Longrightarrow> loop_guard n s \<Longrightarrow>
       find_best_candidate qbc (selected_questions s) (remaining_marks s) (unit_distribution s)
         (bloom_targets s) (n - int (length (selected_questions s))) = Inr (Some c) \<Longrightarrow>
       I (select_candidate c (s\<lparr>attempts := attempts s + 1\<rparr>))"
    and stop: "\<And>s. I s \<Longrightarrow> \<not> loop_guard n s \<Longrightarrow> J (None, s)"
    and brk: "\<And>s. I s \<Longrightarrow> loop_guard n s \<Longrightarrow>
       find_best_candidate qbc (selected_questions s) (remaining_marks s) (unit_distribution s)
         (bloom_targets s) (n - int (length (selected_questions s))) = Inr None \<Longrightarrow>
       J (None, s\<lparr>attempts := attempts s + 1\<rparr>)"
    and err: "\<And>s e. I s \<Longrightarrow> loop_guard n s \<Longrightarrow>
       find_best_candidate qbc (selected_questions s) (remaining_marks s) (unit_distribution s)
         (bloom_targets s) (n - int (length (selected_questions s))) = Inl e \<Longrightarrow>
       J (Some e, s\<lparr>attempts := attempts s + 1\<rparr>)"
  shows "J (selection_loop qbc n s)"
  using init
proof (induction "max_attempts - attempts s" arbitrary: s rule: less_induct)
  case less
  show ?case
  proof (cases "loop_guard n s")
    case False
    then show ?thesis using stop[OF less.prems False] by (subst selection_loop.simps) simp
  next
    case True
    show ?thesis
    proof (cases "find_best_candidate qbc (selected_questions s) (remaining_marks s) (unit_distribution s)
         (bloom_targets s) (n - int (length (selected_questions s)))")
      case (Inl e)
      then show ?thesis using True err[OF less.prems True Inl] by (subst selection_loop.simps) simp
    next
      case (Inr r)
      show ?thesis
      proof (cases r)
        case None
        with Inr have "find_best_candidate qbc (selected_questions s) (remaining_marks s)
            (unit_distribution s) (bloom_targets s) (n - int (length (selected_questions s))) = Inr None"
          by simp
        from brk[OF less.prems True this] show ?thesis
          using True Inr None by (subst selection_loop.simps) simp
      next
        case (Some c)
        let ?s' = "select_candidate c (s\<lparr>attempts := attempts s + 1\<rparr>)"
        have I': "I ?s'"
          using step[OF less.prems True] Inr Some by simp
        have "max_attempts - attempts ?s' < max_attempts - attempts s"
          using True by (auto simp: loop_guard_def select_candidate_def)
        then have "J (selection_loop qbc n ?s')"
          using less.hyps I' by blast
        then show ?thesis using True Inr Some by (subst selection_loop.simps) simp
      qed
    qed
  qed
qed


lemma within_budget_snoc:
  assumes "within_budget tm sel" and "marks c \<le> tm - sum_list (map marks sel)"
  shows "within_budget tm (sel @ [c])"
  unfolding within_budget_def
proof (intro allI impI)
  fix i assume i: "i < length (sel @ [c])"
  show "marks ((sel @ [c]) ! i) \<le> tm - sum_list (map marks (take i (sel @ [c])))"
  proof (cases "i < length sel")
    case True
    then show ?thesis using assms(1) by (simp add: within_budget_def nth_append)
  next
    case False
    with i have "i = length sel" by simp
    then show ?thesis using assms(2) by simp
  qed
qed

lemma loop_inv_initial: "loop_inv pool tm (initial_state tm ud bd)"
  by (simp add: loop_inv_def initial_state_def within_budget_def)

lemma loop_inv_step:
  assumes "loop_inv pool tm s" and "loop_guard n s"
    and "find_best_candidate (organize_questions pool) (selected_questions s) (remaining_marks s)
           (unit_distribution s) (bloom_targets s) rc = Inr (Some c)"
  shows "loop_inv pool tm (select_candidate c (s\<lparr>attempts := attempts s + 1\<rparr>))"
proof -
  from find_best_candidate_sound[OF assms(3)]
  have c: "c \<in> set pool" "qid c \<notin> set (map qid (selected_questions s))" "marks c \<le> remaining_marks s"
    by (simp_all add: set_organize_questions del: set_concat)
  from assms(2) have "attempts s < max_attempts" by (simp add: loop_guard_def)
  then show ?thesis
    using assms(1) c
    by (simp add: loop_inv_def select_candidate_def within_budget_snoc)
qed

lemma loop_inv_attempts: "loop_inv pool tm s \<Longrightarrow> loop_guard n s \<Longrightarrow> loop_inv pool tm (s\<lparr>attempts := attempts s + 1\<rparr>)"
  by (auto simp: loop_inv_def loop_guard_def)

lemma primary_selection_inv:
  "loop_inv pool tm (snd (primary_selection pool tm n ud bd))"
  unfolding primary_selection_def
proof (rule selection_loop_rule[where I = "loop_inv pool tm" and J = "\<lambda>r. loop_inv pool tm (snd r)"])
  show "loop_inv pool tm (initial_state tm ud bd)" by (rule loop_inv_initial)
qed (simp_all only: snd_conv loop_inv_step loop_inv_attempts)

lemma calculate_fitness_score_ok:
  assumes "marks q \<noteq> 0" and "rem \<noteq> 0"
  shows "\<exists>r. calculate_fitness_score q ud bt rem = Inr r"
  using assms by (simp add: calculate_fitness_score_def py_truediv_def split: option.splits)

lemma scan_candidates_ok:
  assumes "\<forall>q\<in>set qs. marks q \<noteq> 0" and "rem \<noteq> 0"
  shows "\<exists>cs. scan_candidates qs ids rem ud bt = Inr cs"
  using assms
proof (induction qs)
  case Nil
  then show ?case by simp
next
  case (Cons q qs)
  then obtain cs where cs: "scan_candidates qs ids rem ud bt = Inr cs" by auto
  from Cons.prems obtain r where "calculate_fitness_score q ud bt rem = Inr r"
    using calculate_fitness_score_ok[of q rem ud bt] by auto
  with cs show ?case by simp
qed

lemma find_best_candidate_ok:
  assumes "\<forall>q\<in>set (concat (map snd qbc)). marks q \<noteq> 0" and "rem \<noteq> 0"
  shows "find_best_candidate qbc sel rem ud bt rc \<noteq> Inl e"
proof -
  from scan_candidates_ok[OF assms] obtain cs where
    "scan_candidates (concat (map snd qbc)) (map qid sel) rem ud bt = Inr cs" by blast
  then show ?thesis by (simp add: find_best_candidate_def)
qed

lemma primary_selection_no_exception:
  assumes "\<forall>q\<in>set pool. marks q \<noteq> 0"
  shows "fst (primary_selection pool tm n ud bd) = None"
  unfolding primary_selection_def
proof (rule selection_loop_rule[where I = "\<lambda>s. True" and J = "\<lambda>r. fst r = None"])
  fix s e
  assume "loop_guard n s"
    and "find_best_candidate (organize_questions pool) (selected_questions s) (remaining_marks s)
           (unit_distribution s) (bloom_targets s) (n - int (length (selected_questions s))) = Inl e"
  moreover have "\<forall>q\<in>set (concat (map snd (organize_questions pool))). marks q \<noteq> 0"
    using assms by (simp add: set_organize_questions del: set_concat)
  ultimately show "fst (Some e, s\<lparr>attempts := attempts s + 1\<rparr>) = None"
    using find_best_candidate_ok[of "organize_questions pool" "remaining_marks s"]
    by (auto simp: loop_guard_def)
qed simp_all

lemma reasonable_paper_iff:
  "reasonable_paper sel n \<longleftrightarrow> 3 \<le> length sel \<and> 7 * n \<le> 10 * int (length sel)"
proof -
  have a: "(3::rat) \<le> rat_of_int (int (length sel)) \<longleftrightarrow> 3 \<le> length sel"
    by (metis of_int_le_iff of_int_numeral of_nat_le_iff of_nat_numeral)
  have "rat_of_int n * (7 / 10) \<le> rat_of_int (int (length sel))
        \<longleftrightarrow> rat_of_int (7 * n) \<le> rat_of_int (10 * int (length sel))"
    by (simp add: field_simps)
  also have "\<dots> \<longleftrightarrow> 7 * n \<le> 10 * int (length sel)"
    by (rule of_int_le_iff)
  finally show ?thesis using a by (simp add: reasonable_paper_def)
qed

lemma relaxed_loop_distinct:
  "distinct (map qid (sel @ av)) \<Longrightarrow> distinct (map qid (relaxed_loop av tm tc sel tot))"
  by (induction av arbitrary: sel tot) auto

lemma relaxed_within_bound_snoc:
  assumes "relaxed_within_bound tm sel"
    and "rat_of_int (sum_list (map marks sel) + marks q) \<le> rat_of_int tm * (11 / 10)"
  shows "relaxed_within_bound tm (sel @ [q])"
  unfolding relaxed_within_bound_def
proof (intro allI impI)
  fix i assume i: "i < length (sel @ [q])"
  show "rat_of_int (sum_list (map marks (take (Suc i) (sel @ [q])))) \<le> rat_of_int tm * (11 / 10)"
  proof (cases "i < length sel")
    case True
    then show ?thesis using assms(1) by (simp add: relaxed_within_bound_def)
  next
    case False
    with i have "i = length sel" by simp
    then show ?thesis using assms(2) by simp
  qed
qed

lemma relaxed_loop_within_bound:
  "relaxed_within_bound tm sel \<Longrightarrow> tot = sum_list (map marks sel) \<Longrightarrow>
   relaxed_within_bound tm (relaxed_loop av tm tc sel tot)"
proof (induction av arbitrary: sel tot)
  case Nil
  then show ?case by simp
next
  case (Cons q av)
  show ?case
  proof (cases "int (length sel) \<ge> tc")
    case True
    then show ?thesis using Cons.prems by simp
  next
    case False
    show ?thesis
    proof (cases "rat_of_int (tot + marks q) \<le> rat_of_int tm * (11 / 10)")
      case True
      then have "relaxed_within_bound tm (sel @ [q])"
        using Cons.prems relaxed_within_bound_snoc by simp
      then have "relaxed_within_bound tm (relaxed_loop av tm tc (sel @ [q]) (tot + marks q))"
        using Cons.prems by (intro Cons.IH) simp_all
      then show ?thesis using False True by simp
    next
      case F2: False
      then show ?thesis using False Cons by simp
    qed
  qed
qed

lemma relaxed_within_bound_total:
  assumes "relaxed_within_bound tm sel" and "sel \<noteq> []"
  shows "rat_of_int (sum_list (map marks sel)) \<le> rat_of_int tm * (11 / 10)"
proof -
  from assms(2) have "length sel - 1 < length sel" by simp
  with assms(1) have "rat_of_int (sum_list (map marks (take (Suc (length sel - 1)) sel))) \<le> rat_of_int tm * (11 / 10)"
    unfolding relaxed_within_bound_def by blast
  then show ?thesis using assms(2) by simp
qed

lemma sample_pool_marks: "\<forall>q\<in>set sample_pool. marks q \<noteq> 0"
  by (simp add: sample_pool_def q1_def q2_def q3_def q4_def)

lemma sample_pool_distinct: "distinct (map qid sample_pool)"
  by (simp add: sample_pool_def q1_def q2_def q3_def q4_def)

lemma primary_selection_empty_pool:
  "selected_questions (snd (primary_selection [] tm n ud bd)) = []"
  using primary_selection_inv[of "[]" tm n ud bd] by (simp add: loop_inv_def)

subsection \<open>The acceptance test of the primary strategy\<close>

text \<open>
  Claim C1. For every pool of questions with non-zero marks and every constraint set,
  \<^verbatim>\<open>generate_paper\<close> returns the list selected by the primary greedy strategy exactly
  when that list has at least \<open>max(3, 0.7 * num_questions)\<close> questions, that is at least
  three and at least seven tenths of \<open>num_questions\<close>; otherwise it returns what the
  relaxed fallback returns on the full pool. (For an empty pool the source returns
  \<^verbatim>\<open>None\<close> at once, which is also what the fallback returns on an empty pool. The
  product \<^verbatim>\<open>num_questions * 0.7\<close> is rounded in the source; it is compared with an
  integer, the rounded product is never above \<open>0.7 * num_questions\<close> when that is an
  integer and is more than a rounding error away from every integer otherwise, so the
  exact comparison decides the same.)
\<close>

theorem generate_paper_acceptance:
  assumes "\<forall>q\<in>set db. marks q \<noteq> 0" and "mset (shuffle db) = mset db"
  shows "fst (generate_paper shuffle db tm n ud bd) =
     (let sel = selected_questions (snd (primary_selection db tm n ud bd)) in
      if 3 \<le> length sel \<and> 7 * n \<le> 10 * int (length sel) then Inr (Some sel)
      else Inr (generate_paper_relaxed shuffle db tm n))"
proof (cases "db = []")
  case True
  with assms(2) have "shuffle [] = []" by simp
  then have "generate_paper_relaxed shuffle [] tm n = None"
    by (simp add: generate_paper_relaxed_def)
  then show ?thesis using True
    by (simp add: generate_paper_def get_all_questions primary_selection_empty_pool Let_def)
next
  case False
  obtain e s where es: "primary_selection db tm n ud bd = (e, s)"
    by (cases "primary_selection db tm n ud bd")
  with primary_selection_no_exception[OF assms(1), of tm n ud bd] have "e = None" by simp
  with es False show ?thesis
    by (simp add: generate_paper_def get_all_questions reasonable_paper_iff Let_def)
qed

theorem generate_paper_acceptance_witness:
  "map marks sample_pool = [2, 5, 10, 5] \<and> mset (rev sample_pool) = mset sample_pool
   \<and> fst (generate_paper rev sample_pool 20 3 sample_units sample_blooms) = Inr (Some [q1, q4, q2])
   \<and> selected_questions (snd (primary_selection sample_pool 10 5 sample_units sample_blooms)) = [q1, q4]
   \<and> fst (generate_paper rev sample_pool 10 5 sample_units sample_blooms)
       = Inr (generate_paper_relaxed rev sample_pool 10 5)"
proof -
  have m: "mset (rev sample_pool) = mset sample_pool" by simp
  have mk: "map marks sample_pool = [2, 5, 10, 5]"
    by (simp add: sample_pool_def q1_def q2_def q3_def q4_def)
  have s1: "selected_questions (snd (primary_selection sample_pool 20 3 sample_units sample_blooms))
      = [q1, q4, q2]"
    by code_simp
  have s2: "selected_questions (snd (primary_selection sample_pool 10 5 sample_units sample_blooms))
      = [q1, q4]"
    by code_simp
  show ?thesis
    using generate_paper_acceptance[where shuffle = rev and db = sample_pool and tm = 20
          and n = 3 and ud = sample_units and bd = sample_blooms, OF sample_pool_marks m]
      generate_paper_acceptance[where shuffle = rev and db = sample_pool and tm = 10
          and n = 5 and ud = sample_units and bd = sample_blooms, OF sample_pool_marks m]
      mk s1 s2
    by (simp add: Let_def)
qed

subsection \<open>No duplicate ids, and the marks budget of the primary strategy\<close>

lemma generate_paper_relaxed_distinct:
  assumes "distinct (map qid qs)" and "mset (shuffle qs) = mset qs"
    and "generate_paper_relaxed shuffle qs tm tc = Some paper"
  shows "distinct (map qid paper)"
proof -
  have "mset (map qid (shuffle qs)) = mset (map qid qs)"
    using assms(2) by (metis mset_map)
  then have "distinct (map qid (shuffle qs))"
    using assms(1) by (metis mset_eq_imp_distinct_iff)
  then have "distinct (map qid (relaxed_loop (shuffle qs) tm tc [] 0))"
    using relaxed_loop_distinct[of "[]" "shuffle qs" tm tc 0] by simp
  with assms(3) show ?thesis
    by (auto simp: generate_paper_relaxed_def Let_def split: if_splits)
qed

text \<open>
  Claim C2. For every pool whose question ids are distinct and every constraint set, a
  list returned by \<^verbatim>\<open>generate_paper\<close> (from the primary strategy or from the relaxed
  fallback, whose shuffle rearranges the pool) holds no two questions with the same id.
  On the primary strategy every selected question's marks were at most the marks budget
  remaining when it was selected: the budget is the total minus the marks selected
  before, which is what \<^verbatim>\<open>remaining_marks\<close> holds, and \<^verbatim>\<open>find_best_candidate\<close>
  only ever returns a question that is not yet selected and fits the remaining marks.
\<close>

theorem assembler_distinct_ids_and_budget:
  assumes "distinct (map qid db)" and "mset (shuffle db) = mset db"
  shows "(\<forall>paper. fst (generate_paper shuffle db tm n ud bd) = Inr (Some paper)
            \<longrightarrow> distinct (map qid paper))
       \<and> within_budget tm (selected_questions (snd (primary_selection db tm n ud bd)))
       \<and> remaining_marks (snd (primary_selection db tm n ud bd))
           = tm - sum_list (map marks (selected_questions (snd (primary_selection db tm n ud bd))))
       \<and> (\<forall>qbc sel rem ud' bt rc c. find_best_candidate qbc sel rem ud' bt rc = Inr (Some c)
            \<longrightarrow> qid c \<notin> set (map qid sel) \<and> marks c \<le> rem)"
proof -
  have inv: "loop_inv db tm (snd (primary_selection db tm n ud bd))"
    by (rule primary_selection_inv)
  have "distinct (map qid paper)" if p: "fst (generate_paper shuffle db tm n ud bd) = Inr (Some paper)"
    for paper
  proof -
    obtain e s where es: "primary_selection db tm n ud bd = (e, s)"
      by (cases "primary_selection db tm n ud bd")
    from p es consider "paper = selected_questions s"
      | "generate_paper_relaxed shuffle db tm n = Some paper"
      by (auto simp: generate_paper_def get_all_questions Let_def split: if_splits option.splits)
    then show ?thesis
    proof cases
      case 1
      with inv es show ?thesis by (simp add: loop_inv_def)
    next
      case 2
      with assms show ?thesis by (rule generate_paper_relaxed_distinct)
    qed
  qed
  moreover from inv have "within_budget tm (selected_questions (snd (primary_selection db tm n ud bd)))"
    and "remaining_marks (snd (primary_selection db tm n ud bd))
           = tm - sum_list (map marks (selected_questions (snd (primary_selection db tm n ud bd))))"
    by (simp_all add: loop_inv_def)
  moreover have "qid c \<notin> set (map qid sel) \<and> marks c \<le> rem"
    if "find_best_candidate qbc sel rem ud' bt rc = Inr (Some c)" for qbc sel rem ud' bt rc c
    using find_best_candidate_sound[OF that] by simp
  ultimately show ?thesis by blast
qed

theorem assembler_distinct_ids_and_budget_witness:
  "map qid sample_pool = [1, 2, 3, 4] \<and> mset (rev sample_pool) = mset sample_pool
   \<and> fst (generate_paper rev sample_pool 20 3 sample_units sample_blooms) = Inr (Some [q1, q4, q2])
   \<and> distinct (map qid [q1, q4, q2])
   \<and> within_budget 20 [q1, q4, q2]
   \<and> remaining_marks (snd (primary_selection sample_pool 20 3 sample_units sample_blooms)) = 8"
proof -
  have m: "mset (rev sample_pool) = mset sample_pool" by simp
  have ids: "map qid sample_pool = [1, 2, 3, 4]"
    by (simp add: sample_pool_def q1_def q2_def q3_def q4_def)
  have g: "fst (generate_paper rev sample_pool 20 3 sample_units sample_blooms) = Inr (Some [q1, q4, q2])"
    by code_simp
  have s: "selected_questions (snd (primary_selection sample_pool 20 3 sample_units sample_blooms))
      = [q1, q4, q2]"
    by code_simp
  have sm: "sum_list (map marks [q1, q4, q2]) = 12"
    by (simp add: q1_def q2_def q4_def)
  show ?thesis
    using assembler_distinct_ids_and_budget[where shuffle = rev and db = sample_pool and tm = 20
          and n = 3 and ud = sample_units and bd = sample_blooms, OF sample_pool_distinct m]
      ids g s sm
    by simp
qed

subsection \<open>The relaxed fallback\<close>

text \<open>
  Claim C3. For every pool and every target, the relaxed fallback accepts a candidate only
  while the running total plus the candidate's marks is at most 1.1 times the target
  marks, so after each acceptance the total is within that bound and the total marks of a
  list it returns never exceed 1.1 times the target. It returns its selection exactly
  when the selection has at least three questions and \<^verbatim>\<open>None\<close> (no paper) otherwise.
  (The source compares an integer with the rounded product \<^verbatim>\<open>target_marks * 1.1\<close>;
  for marks and targets that are not negative the exact comparison decides the same, and
  the integer bound \<open>10 * total \<le> 11 * target\<close> holds for the rounded product as well.)
\<close>

theorem relaxed_fallback_bound:
  "generate_paper_relaxed shuffle qs tm tc =
      (if 3 \<le> length (relaxed_loop (shuffle qs) tm tc [] 0)
       then Some (relaxed_loop (shuffle qs) tm tc [] 0) else None)
   \<and> relaxed_within_bound tm (relaxed_loop (shuffle qs) tm tc [] 0)
   \<and> (\<forall>paper. generate_paper_relaxed shuffle qs tm tc = Some paper
         \<longrightarrow> 3 \<le> length paper
           \<and> rat_of_int (sum_list (map marks paper)) \<le> rat_of_int tm * (11 / 10)
           \<and> 10 * sum_list (map marks paper) \<le> 11 * tm)"
proof -
  let ?sel = "relaxed_loop (shuffle qs) tm tc [] 0"
  have eq: "generate_paper_relaxed shuffle qs tm tc = (if 3 \<le> length ?sel then Some ?sel else None)"
    by (simp add: generate_paper_relaxed_def Let_def)
  have wb: "relaxed_within_bound tm ?sel"
    by (rule relaxed_loop_within_bound) (simp_all add: relaxed_within_bound_def)
  have "3 \<le> length paper \<and> rat_of_int (sum_list (map marks paper)) \<le> rat_of_int tm * (11 / 10)
          \<and> 10 * sum_list (map marks paper) \<le> 11 * tm"
    if "generate_paper_relaxed shuffle qs tm tc = Some paper" for paper
  proof -
    from that eq have p: "paper = ?sel" and l: "3 \<le> length paper"
      by (auto split: if_splits)
    from l have "paper \<noteq> []" by auto
    with wb p have b: "rat_of_int (sum_list (map marks paper)) \<le> rat_of_int tm * (11 / 10)"
      using relaxed_within_bound_total by blast
    then have "rat_of_int (10 * sum_list (map marks paper)) \<le> rat_of_int (11 * tm)"
      by (simp add: field_simps)
    then have "10 * sum_list (map marks paper) \<le> 11 * tm"
      by (simp only: of_int_le_iff)
    with l b show ?thesis by simp
  qed
  with eq wb show ?thesis by blast
qed

theorem relaxed_fallback_bound_witness:
  "generate_paper_relaxed rev sample_pool 20 3 = Some [q4, q3, q2]
   \<and> 10 * sum_list (map marks [q4, q3, q2]) \<le> 11 * (20::int)
   \<and> relaxed_loop (rev sample_pool) 10 5 [] 0 = [q4, q2]
   \<and> generate_paper_relaxed rev sample_pool 10 5 = None"
proof -
  have a: "generate_paper_relaxed rev sample_pool 20 3 = Some [q4, q3, q2]"
    by code_simp
  have b: "relaxed_loop (rev sample_pool) 10 5 [] 0 = [q4, q2]"
    by code_simp
  show ?thesis
    using relaxed_fallback_bound[of rev sample_pool 20 3] relaxed_fallback_bound[of rev sample_pool 10 5] a b
    by simp
qed

subsection \<open>The attempt cap of the selection loop\<close>

lemma selection_loop_attempts:
  assumes "attempts s = length (selected_questions s)"
  shows "attempts (snd (selection_loop qbc n s)) \<le> length (selected_questions (snd (selection_loop qbc n s))) + 1"
proof (rule selection_loop_rule[where I = "\<lambda>s. attempts s = length (selected_questions s)"
      and J = "\<lambda>r. attempts (snd r) \<le> length (selected_questions (snd r)) + 1"])
  show "attempts s = length (selected_questions s)" by (rule assms)
qed (simp_all add: select_candidate_def)

lemma primary_selection_length:
  "length (selected_questions (snd (primary_selection db tm n ud bd))) \<le> length db"
proof -
  let ?sel = "selected_questions (snd (primary_selection db tm n ud bd))"
  from primary_selection_inv[of db tm n ud bd]
  have d: "distinct (map qid ?sel)" and s: "set ?sel \<subseteq> set db"
    by (simp_all add: loop_inv_def)
  from d have "distinct ?sel" by (simp add: distinct_map)
  then have "length ?sel = card (set ?sel)" by (simp add: distinct_card)
  also have "\<dots> \<le> card (set db)" using s by (simp add: card_mono)
  also have "\<dots> \<le> length db" by (rule card_length)
  finally show ?thesis .
qed

text \<open>
  Claim C5. The selection loop is a total function: its recursion is justified by the
  measure \<open>max_attempts - attempts\<close>, and every other function of the assembler recurses
  on a list. Counting from zero, the loop runs at most 1000 iterations, and never more
  than one more than the size of the pool; with a pool of one question and
  \<open>num_questions = 5\<close> it runs at most twice. When no candidate qualifies in an iteration,
  the loop is left in that iteration with nothing but the attempt counter changed.
\<close>

theorem selection_loop_attempt_cap:
  "attempts (snd (primary_selection db tm n ud bd)) \<le> 1000
   \<and> attempts (snd (primary_selection db tm n ud bd)) \<le> length db + 1
   \<and> (\<forall>q. attempts (snd (primary_selection [q] tm 5 ud bd)) \<le> 2)
   \<and> (\<forall>qbc s. loop_guard n s \<longrightarrow>
        find_best_candidate qbc (selected_questions s) (remaining_marks s) (unit_distribution s)
          (bloom_targets s) (n - int (length (selected_questions s))) = Inr None \<longrightarrow>
        selection_loop qbc n s = (None, s\<lparr>attempts := attempts s + 1\<rparr>))"
proof -
  have cap: "attempts (snd (primary_selection db tm n ud bd)) \<le> 1000"
    using primary_selection_inv[of db tm n ud bd] by (simp add: loop_inv_def max_attempts_def)
  have len: "attempts (snd (primary_selection db' tm n' ud bd)) \<le> length db' + 1" for db' n'
  proof -
    have "attempts (snd (primary_selection db' tm n' ud bd))
        \<le> length (selected_questions (snd (primary_selection db' tm n' ud bd))) + 1"
      unfolding primary_selection_def
      by (rule selection_loop_attempts) (simp add: initial_state_def)
    with primary_selection_length[of db' tm n' ud bd] show ?thesis by linarith
  qed
  have one: "attempts (snd (primary_selection [q] tm 5 ud bd)) \<le> 2" for q
    using len[of "[q]" 5] by simp
  have early: "selection_loop qbc n s = (None, s\<lparr>attempts := attempts s + 1\<rparr>)"
    if "loop_guard n s"
      and "find_best_candidate qbc (selected_questions s) (remaining_marks s) (unit_distribution s)
          (bloom_targets s) (n - int (length (selected_questions s))) = Inr None" for qbc s
    using that by (subst selection_loop.simps) simp
  from cap len[of db n] one early show ?thesis by blast
qed

theorem selection_loop_attempt_cap_witness:
  "attempts (snd (primary_selection [q1] 50 5 sample_units sample_blooms)) = 2
   \<and> selected_questions (snd (primary_selection [q1] 50 5 sample_units sample_blooms)) = [q1]
   \<and> loop_guard 5 (select_candidate q1 ((initial_state 50 sample_units sample_blooms)\<lparr>attempts := 1\<rparr>))
   \<and> selection_loop (organize_questions [q1]) 5
        (select_candidate q1 ((initial_state 50 sample_units sample_blooms)\<lparr>attempts := 1\<rparr>))
      = (None, (select_candidate q1 ((initial_state 50 sample_units sample_blooms)\<lparr>attempts := 1\<rparr>))\<lparr>attempts := 2\<rparr>)"
proof -
  let ?s = "select_candidate q1 ((initial_state 50 sample_units sample_blooms)\<lparr>attempts := 1\<rparr>)"
  have a: "attempts (snd (primary_selection [q1] 50 5 sample_units sample_blooms)) = 2"
    by code_simp
  have b: "selected_questions (snd (primary_selection [q1] 50 5 sample_units sample_blooms)) = [q1]"
    by code_simp
  have g: "loop_guard 5 ?s"
    by (simp add: loop_guard_def select_candidate_def initial_state_def max_attempts_def q1_def)
  have f: "find_best_candidate (organize_questions [q1]) (selected_questions ?s) (remaining_marks ?s)
      (unit_distribution ?s) (bloom_targets ?s) (5 - int (length (selected_questions ?s))) = Inr None"
    by (simp add: find_best_candidate_def organize_questions_def select_candidate_def initial_state_def)
  have at: "attempts ?s + 1 = 2"
    by (simp add: select_candidate_def)
  from selection_loop_attempt_cap[of "[q1]" 50 5 sample_units sample_blooms] g f
  have "selection_loop (organize_questions [q1]) 5 ?s = (None, ?s\<lparr>attempts := attempts ?s + 1\<rparr>)"
    by blast
  with a b g at show ?thesis by simp
qed

subsection \<open>What selecting a question does to the two dictionaries of needs\<close>

lemma select_candidate_unit:
  "unit_distribution (select_candidate c s) u =
     (if u = unit c then map_option (\<lambda>v. v - marks c) (unit_distribution s u)
      else unit_distribution s u)"
  by (simp add: select_candidate_def split: option.splits)

lemma select_candidate_bloom:
  "bloom_targets (select_candidate c s) l =
     (if l = bloom_level c then map_option (\<lambda>v. v - rat_of_int (marks c)) (bloom_targets s l)
      else bloom_targets s l)"
  by (simp add: select_candidate_def split: option.splits)

lemma select_candidate_selected:
  "selected_questions (select_candidate c s) = selected_questions s @ [c]"
  by (simp add: select_candidate_def)

lemma needs_inv_initial: "needs_inv tm ud bd (initial_state tm ud bd)"
  by (simp add: needs_inv_def initial_state_def unit_marks_def bloom_marks_def option.map_ident)

lemma needs_inv_attempts: "needs_inv tm ud bd s \<Longrightarrow> needs_inv tm ud bd (s\<lparr>attempts := k\<rparr>)"
  by (simp add: needs_inv_def)

lemma needs_inv_select:
  assumes "needs_inv tm ud bd s"
  shows "needs_inv tm ud bd (select_candidate c s)"
proof -
  have u: "unit_distribution (select_candidate c s) u
      = map_option (\<lambda>v. v - unit_marks u (selected_questions (select_candidate c s))) (ud u)" for u
    using assms
    by (cases "ud u")
       (auto simp: needs_inv_def select_candidate_unit select_candidate_selected unit_marks_def)
  have b: "bloom_targets (select_candidate c s) l
      = map_option (\<lambda>p. rat_of_int p / 100 * rat_of_int tm
            - rat_of_int (bloom_marks l (selected_questions (select_candidate c s)))) (bd l)" for l
    using assms
    by (cases "bd l")
       (auto simp: needs_inv_def select_candidate_bloom select_candidate_selected bloom_marks_def)
  from u b show ?thesis unfolding needs_inv_def by blast
qed

lemma primary_selection_needs:
  "needs_inv tm ud bd (snd (primary_selection pool tm n ud bd))"
  unfolding primary_selection_def
proof (rule selection_loop_rule[where I = "needs_inv tm ud bd" and J = "\<lambda>r. needs_inv tm ud bd (snd r)"])
  show "needs_inv tm ud bd (initial_state tm ud bd)" by (rule needs_inv_initial)
qed (simp_all only: snd_conv needs_inv_select needs_inv_attempts)

lemma generate_paper_bloom_distribution:
  "snd (snd (generate_paper shuffle db tm n ud bd)) = bd"
  by (simp add: generate_paper_def Let_def split: prod.splits option.splits)

lemma generate_paper_unit_distribution:
  "fst (snd (generate_paper shuffle db tm n ud bd)) = unit_distribution (snd (primary_selection db tm n ud bd))"
proof (cases "db = []")
  case True
  have "unit_distribution (snd (primary_selection [] tm n ud bd)) u = ud u" for u
    using primary_selection_needs[of tm ud bd "[]" n] primary_selection_empty_pool[of tm n ud bd]
    by (simp add: needs_inv_def unit_marks_def option.map_ident)
  then have "unit_distribution (snd (primary_selection [] tm n ud bd)) = ud" by blast
  with True show ?thesis by (simp add: generate_paper_def get_all_questions)
next
  case False
  then show ?thesis
    by (simp add: generate_paper_def get_all_questions Let_def split: prod.splits option.splits)
qed

text \<open>
  Claim C4 says that each selection decrements both of the caller's dictionaries in
  place. It holds for \<^verbatim>\<open>unit_distribution\<close>. It does not hold for
  \<^verbatim>\<open>bloom_distribution\<close>: \<^verbatim>\<open>generate_paper\<close> first builds the dictionary
  \<^verbatim>\<open>bloom_targets\<close> (each percentage turned into marks) and decrements that one, so the
  caller's \<^verbatim>\<open>bloom_distribution\<close> is the same after the call. On the sample pool the
  paper holds the question \<open>q4\<close> of level Understand with 5 marks, and the caller's entry
  for Understand is 50 before and after, while Unit 1 went from 10 to 3.
\<close>

theorem bloom_distribution_not_decremented:
  "fst (generate_paper rev sample_pool 20 3 sample_units sample_blooms) = Inr (Some [q1, q4, q2])
   \<and> bloom_level q4 = ''Understand'' \<and> marks q4 = 5
   \<and> sample_blooms ''Understand'' = Some 50
   \<and> snd (snd (generate_paper rev sample_pool 20 3 sample_units sample_blooms)) ''Understand'' = Some 50
   \<and> snd (snd (generate_paper rev sample_pool 20 3 sample_units sample_blooms)) ''Understand''
        \<noteq> Some (50 - 5)
   \<and> fst (snd (generate_paper rev sample_pool 20 3 sample_units sample_blooms)) ''Unit 1'' = Some 3"
proof -
  have a: "fst (generate_paper rev sample_pool 20 3 sample_units sample_blooms) = Inr (Some [q1, q4, q2])"
    by code_simp
  have b: "bloom_level q4 = ''Understand''" "marks q4 = 5" by (simp_all add: q4_def)
  have c: "sample_blooms ''Understand'' = Some 50" by (simp add: sample_blooms_def)
  have d: "snd (snd (generate_paper rev sample_pool 20 3 sample_units sample_blooms)) ''Understand'' = Some 50"
    by code_simp
  have e: "fst (snd (generate_paper rev sample_pool 20 3 sample_units sample_blooms)) ''Unit 1'' = Some 3"
    by code_simp
  from a b c d e show ?thesis by simp
qed

text \<open>
  Claim C4, amended. Each time the primary loop selects a question, the caller's
  \<^verbatim>\<open>unit_distribution\<close> is decremented in place by the question's marks at the
  question's unit, and the local dictionary \<^verbatim>\<open>bloom_targets\<close> (percentage / 100 times
  the total marks, per level of \<^verbatim>\<open>bloom_distribution\<close>) is decremented by the
  question's marks at the question's Bloom level, in each case only if the key is present
  and leaving every other key as it was. The caller's \<^verbatim>\<open>bloom_distribution\<close> is never
  modified. So after the call the caller's \<^verbatim>\<open>unit_distribution\<close> holds, for each of
  its keys, the initial value minus the marks the primary loop selected from that unit,
  and when the loop is left \<^verbatim>\<open>bloom_targets\<close> holds the initial target minus the marks
  selected at that level.
\<close>

theorem selection_decrements_needs:
  "unit_distribution (select_candidate c s) u =
     (if u = unit c then map_option (\<lambda>v. v - marks c) (unit_distribution s u)
      else unit_distribution s u)
   \<and> bloom_targets (select_candidate c s) l =
     (if l = bloom_level c then map_option (\<lambda>v. v - rat_of_int (marks c)) (bloom_targets s l)
      else bloom_targets s l)
   \<and> snd (snd (generate_paper shuffle db tm n ud bd)) = bd
   \<and> fst (snd (generate_paper shuffle db tm n ud bd)) u =
       map_option (\<lambda>v. v - unit_marks u (selected_questions (snd (primary_selection db tm n ud bd)))) (ud u)
   \<and> bloom_targets (snd (primary_selection db tm n ud bd)) l =
       map_option (\<lambda>p. rat_of_int p / 100 * rat_of_int tm
          - rat_of_int (bloom_marks l (selected_questions (snd (primary_selection db tm n ud bd))))) (bd l)"
proof -
  from primary_selection_needs[of tm ud bd db n]
  have a: "unit_distribution (snd (primary_selection db tm n ud bd)) u =
       map_option (\<lambda>v. v - unit_marks u (selected_questions (snd (primary_selection db tm n ud bd)))) (ud u)"
    and b: "bloom_targets (snd (primary_selection db tm n ud bd)) l =
       map_option (\<lambda>p. rat_of_int p / 100 * rat_of_int tm
          - rat_of_int (bloom_marks l (selected_questions (snd (primary_selection db tm n ud bd))))) (bd l)"
    unfolding needs_inv_def by blast+
  from a have a': "fst (snd (generate_paper shuffle db tm n ud bd)) u =
       map_option (\<lambda>v. v - unit_marks u (selected_questions (snd (primary_selection db tm n ud bd)))) (ud u)"
    by (simp only: generate_paper_unit_distribution)
  from select_candidate_unit[of c s u] select_candidate_bloom[of c s l]
    generate_paper_bloom_distribution[of shuffle db tm n ud bd] a' b
  show ?thesis by blast
qed

theorem selection_decrements_needs_witness:
  "fst (snd (generate_paper rev sample_pool 20 3 sample_units sample_blooms)) ''Unit 1'' = Some (10 - 7)
   \<and> bloom_targets (snd (primary_selection sample_pool 20 3 sample_units sample_blooms)) ''Understand''
       = Some (10 - 10)
   \<and> snd (snd (generate_paper rev sample_pool 20 3 sample_units sample_blooms)) = sample_blooms"
proof -
  have s: "selected_questions (snd (primary_selection sample_pool 20 3 sample_units sample_blooms))
      = [q1, q4, q2]"
    by code_simp
  have u: "unit_marks ''Unit 1'' [q1, q4, q2] = 7" "bloom_marks ''Understand'' [q1, q4, q2] = 10"
    by (simp_all add: unit_marks_def bloom_marks_def q1_def q2_def q4_def)
  have v: "sample_units ''Unit 1'' = Some 10" "sample_blooms ''Understand'' = Some 50"
    by (simp_all add: sample_units_def sample_blooms_def)
  show ?thesis
    using selection_decrements_needs[of q1 "initial_state 20 sample_units sample_blooms" "''Unit 1''"
        "''Understand''" rev sample_pool 20 3 sample_units sample_blooms] s u v
    by simp
qed

subsection \<open>Removing a question from the current paper\<close>

text \<open>
  Claim C9 says that removing an id that is absent from the paper signals
  \<^verbatim>\<open>NotFoundError\<close>. The route has no such response: it filters the paper and answers
  with success. The paper \<open>[q1, q4, q2]\<close> holds the ids 1, 4 and 2; removing the id 3
  succeeds and leaves the paper as it was.
\<close>

theorem remove_absent_id_succeeds:
  "map qid [q1, q4, q2] = [1, 4, 2] \<and> remove_question [q1, q4, q2] 3 = Inr [q1, q4, q2]
   \<and> remove_question [q1, q4, q2] 3 \<noteq> Inl NotFound"
  by (simp add: remove_question_def q1_def q2_def q4_def)

text \<open>
  Claim C9, amended. For every current paper and every question id, the remove operation
  succeeds and returns the paper without the questions that have this id, in their
  order; it never signals \<^verbatim>\<open>NotFoundError\<close>. For an id absent from the paper it
  succeeds with the paper unchanged.
\<close>

theorem remove_question_never_fails:
  "remove_question paper question_id = Inr (filter (\<lambda>q. qid q \<noteq> question_id) paper)
   \<and> remove_question paper question_id \<noteq> Inl NotFound
   \<and> (question_id \<notin> set (map qid paper) \<longrightarrow> remove_question paper question_id = Inr paper)
   \<and> (\<forall>paper'. remove_question paper question_id = Inr paper' \<longrightarrow>
         question_id \<notin> set (map qid paper') \<and> set paper' \<subseteq> set paper)"
proof -
  have "filter (\<lambda>q. qid q \<noteq> question_id) paper = paper" if "question_id \<notin> set (map qid paper)"
    using that by (induction paper) auto
  then show ?thesis by (auto simp: remove_question_def)
qed

theorem remove_question_never_fails_witness:
  "map qid [q1, q4, q2] = [1, 4, 2] \<and> remove_question [q1, q4, q2] 3 = Inr [q1, q4, q2]
   \<and> remove_question [q1, q4, q2] 4 = Inr [q1, q2]"
proof -
  have ids: "map qid [q1, q4, q2] = [1, 4, 2]" by (simp add: q1_def q2_def q4_def)
  have f: "filter (\<lambda>q. qid q \<noteq> 4) [q1, q4, q2] = [q1, q2]" by (simp add: q1_def q2_def q4_def)
  from remove_question_never_fails[of "[q1, q4, q2]" 3] remove_question_never_fails[of "[q1, q4, q2]" 4]
    ids f
  show ?thesis by simp
qed

subsection \<open>Replacing a question of the current paper\<close>

lemma replace_first_nth:
  assumes "i < length paper" and "qid (paper ! i) = question_id"
    and "\<forall>j<i. qid (paper ! j) \<noteq> question_id"
  shows "replace_first question_id r paper = paper[i := r]"
  using assms
proof (induction paper arbitrary: i)
  case Nil
  then show ?case by simp
next
  case (Cons q paper)
  show ?case
  proof (cases i)
    case 0
    with Cons.prems show ?thesis by simp
  next
    case (Suc k)
    with Cons.prems have q: "qid q \<noteq> question_id" by auto
    have "replace_first question_id r paper = paper[k := r]"
    proof (rule Cons.IH)
      show "k < length paper" using Cons.prems Suc by simp
      show "qid (paper ! k) = question_id" using Cons.prems Suc by simp
      show "\<forall>j<k. qid (paper ! j) \<noteq> question_id"
      proof (intro allI impI)
        fix j assume "j < k"
        then have "Suc j < i" using Suc by simp
        with Cons.prems(3) have "qid ((q # paper) ! Suc j) \<noteq> question_id" by blast
        then show "qid (paper ! j) \<noteq> question_id" by simp
      qed
    qed
    with q Suc show ?thesis by simp
  qed
qed

text \<open>
  Claim C10. Let the replace operation succeed on a paper and a question id, where the
  question to replace is a well-formed question: its unit and Bloom level are not empty
  and its marks are not zero (the query adds a filter only for an argument that is
  truthy). Then the id occurs in the paper; the new paper is the old one with the first
  question of that id overwritten by the replacement, so it has the same length and
  every other position is unchanged; the replacement has the unit, Bloom level and marks
  of the question it replaces, so the total marks are unchanged; and the replacement is
  a row of the table whose id does not occur in the paper.
\<close>

theorem replace_question_frame:
  assumes ok: "replace_question db paper question_id = Inr (paper', replacement)"
    and wf: "\<forall>q\<in>set paper. qid q = question_id \<longrightarrow> unit q \<noteq> [] \<and> bloom_level q \<noteq> [] \<and> marks q \<noteq> 0"
  shows "\<exists>i<length paper.
           qid (paper ! i) = question_id \<and> (\<forall>j<i. qid (paper ! j) \<noteq> question_id)
         \<and> paper' = paper[i := replacement]
         \<and> length paper' = length paper
         \<and> (\<forall>j<length paper. j \<noteq> i \<longrightarrow> paper' ! j = paper ! j)
         \<and> unit replacement = unit (paper ! i)
         \<and> bloom_level replacement = bloom_level (paper ! i)
         \<and> marks replacement = marks (paper ! i)
         \<and> sum_list (map marks paper') = sum_list (map marks paper)
         \<and> qid replacement \<notin> set (map qid paper)
         \<and> replacement \<in> set db"
proof -
  from ok obtain qr where f: "find (\<lambda>q. qid q = question_id) paper = Some qr"
    by (auto simp: replace_question_def split: option.splits)
  then obtain i where i: "i < length paper" "qid (paper ! i) = question_id" "qr = paper ! i"
    "\<forall>j<i. qid (paper ! j) \<noteq> question_id"
    by (auto simp: find_Some_iff)
  let ?alts = "filter (\<lambda>q. qid q \<notin> set (map qid paper))
      (get_questions_by_filters db (Some (unit qr)) (Some (bloom_level qr)) None (Some (marks qr)))"
  from ok f have ne: "?alts \<noteq> []" and r: "replacement = hd ?alts"
    and p: "paper' = replace_first question_id replacement paper"
    by (auto simp: replace_question_def Let_def split: if_splits)
  from ne have "hd ?alts \<in> set ?alts" by (rule hd_in_set)
  with r have "replacement \<in> set ?alts" by (simp only:)
  moreover have "qr \<in> set paper" using i by simp
  then have "unit qr \<noteq> []" "bloom_level qr \<noteq> []" "marks qr \<noteq> 0" using wf i by auto
  ultimately have rp: "unit replacement = unit qr" "bloom_level replacement = bloom_level qr"
    "marks replacement = marks qr" "qid replacement \<notin> set (map qid paper)" "replacement \<in> set db"
    by (auto simp: get_questions_by_filters_def truthy_str_def truthy_int_def)
  from p i have p': "paper' = paper[i := replacement]"
    by (simp add: replace_first_nth)
  have "map marks paper' = map marks paper"
    using p' rp(3) i by (simp add: map_update list_update_same_conv)
  then have s: "sum_list (map marks paper') = sum_list (map marks paper)" by simp
  from i p' rp s show ?thesis by auto
qed

theorem replace_question_frame_witness:
  "replace_question sample_db [q1, q4, q2] 4 = Inr ([q1, q5, q2], q5)
   \<and> [q1, q5, q2] = [q1, q4, q2][1 := q5]
   \<and> unit q5 = unit q4 \<and> bloom_level q5 = bloom_level q4 \<and> marks q5 = marks q4
   \<and> sum_list (map marks [q1, q5, q2]) = sum_list (map marks [q1, q4, q2])
   \<and> replace_question sample_db [q1, q4, q2] 3 = Inl NotFound
   \<and> replace_question sample_db [q1, q4, q2] 1 = Inl NoAlternative"
proof -
  have a: "replace_question sample_db [q1, q4, q2] 4 = Inr ([q1, q5, q2], q5)"
    by code_simp
  have b: "replace_question sample_db [q1, q4, q2] 3 = Inl NotFound"
    by code_simp
  have c: "replace_question sample_db [q1, q4, q2] 1 = Inl NoAlternative"
    by code_simp
  have wf: "\<forall>q\<in>set [q1, q4, q2]. qid q = 4 \<longrightarrow> unit q \<noteq> [] \<and> bloom_level q \<noteq> [] \<and> marks q \<noteq> 0"
    by (simp add: q1_def q2_def q4_def)
  have ids: "qid q1 = 1" "qid q4 = 4" "qid q2 = 2"
    by (simp_all add: q1_def q2_def q4_def)
  from replace_question_frame[OF a wf] obtain i where
    i: "i < length [q1, q4, q2]" "qid ([q1, q4, q2] ! i) = 4" "[q1, q5, q2] = [q1, q4, q2][i := q5]"
    "unit q5 = unit ([q1, q4, q2] ! i)" "bloom_level q5 = bloom_level ([q1, q4, q2] ! i)"
    "marks q5 = marks ([q1, q4, q2] ! i)"
    "sum_list (map marks [q1, q5, q2]) = sum_list (map marks [q1, q4, q2])"
    by blast
  from i(1) have "i = 0 \<or> i = 1 \<or> i = 2" by auto
  with i(2) ids have "i = 1" by auto
  with i a b c show ?thesis by simp
qed

subsection \<open>The Bloom level with the highest keyword count\<close>

lemma py_max_key_first:
  "\<exists>pre post. x # xs = pre @ py_max_key f x xs # post
      \<and> (\<forall>y\<in>set pre. f y < f (py_max_key f x xs))
      \<and> (\<forall>y\<in>set post. f y \<le> f (py_max_key f x xs))"
proof (induction xs rule: rev_induct)
  case Nil
  have "[x] = [] @ x # []" by simp
  then show ?case unfolding py_max_key_def foldl_Nil
    by (metis empty_iff list.set(1))
next
  case (snoc y xs)
  let ?b = "py_max_key f x xs"
  from snoc obtain pre post where d: "x # xs = pre @ ?b # post"
    and lt: "\<forall>z\<in>set pre. f z < f ?b" and le: "\<forall>z\<in>set post. f z \<le> f ?b"
    by blast
  have step: "py_max_key f x (xs @ [y]) = (if f y > f ?b then y else ?b)"
    by (simp add: py_max_key_def)
  show ?case
  proof (cases "f y > f ?b")
    case True
    have "\<forall>z\<in>set (x # xs). f z < f y"
    proof
      fix z assume "z \<in> set (x # xs)"
      then have "z \<in> set pre \<or> z = ?b \<or> z \<in> set post" using d by (metis Un_iff set_ConsD set_append)
      then have "f z \<le> f ?b" using lt le by auto
      with True show "f z < f y" by simp
    qed
    moreover have "x # xs @ [y] = (x # xs) @ y # []" by simp
    ultimately show ?thesis using True step by (metis empty_iff list.set(1))
  next
    case False
    have "x # xs @ [y] = pre @ ?b # (post @ [y])" using d by simp
    moreover have "\<forall>z\<in>set (post @ [y]). f z \<le> f ?b" using le False by auto
    ultimately show ?thesis using False step lt by metis
  qed
qed

lemma map_fst_level_scores: "map fst (level_scores t) = bloom_order"
  by (simp add: level_scores_def BLOOM_KEYWORDS_def bloom_order_def)

lemma score_of_in_set:
  assumes "level \<in> set bloom_order"
  shows "(level, score_of (level_scores t) level) \<in> set (level_scores t)"
proof -
  from assms have "level \<in> fst ` set (level_scores t)"
    using map_fst_level_scores[of t] by (metis set_map)
  then obtain k where "map_of (level_scores t) level = Some k"
    by (metis map_of_eq_None_iff not_None_eq)
  then show ?thesis by (simp add: score_of_def map_of_SomeD)
qed

lemma scores_not_all_zero:
  assumes "level \<in> set bloom_order" and "score_of (level_scores t) level > 0"
  shows "Max (set (map snd (level_scores t))) \<noteq> 0"
proof -
  from score_of_in_set[OF assms(1)] have "score_of (level_scores t) level \<in> set (map snd (level_scores t))"
    by force
  then have "score_of (level_scores t) level \<le> Max (set (map snd (level_scores t)))"
    by simp
  with assms(2) show ?thesis by simp
qed


lemma example_lower: "lower ''Define and explain Recursion.'' = ''define and explain recursion.''"
  by code_simp

lemma example_scores: "level_scores ''define and explain recursion.'' =
  [(''Remember'', 1), (''Understand'', 1), (''Apply'', 0), (''Analyze'', 0), (''Evaluate'', 0), (''Create'', 0)]"
  by code_simp

lemma strip_prefix_iff: "strip_prefix kw rest = Some behind \<longleftrightarrow> rest = kw @ behind"
  by (induction kw rest rule: strip_prefix.induct) auto

lemma match_here_iff:
  assumes "kw \<noteq> []"
  shows "match_here prev kw s \<longleftrightarrow>
     (\<exists>post. s = kw @ post \<and> word_boundary prev (Some (hd kw))
        \<and> word_boundary (Some (last kw)) (first_char post))"
proof -
  have fc: "first_char (kw @ post) = Some (hd kw)" for post
    using assms by (cases kw) (simp_all add: first_char_def)
  show ?thesis
  proof (cases "strip_prefix kw s")
    case None
    then have "\<And>post. s \<noteq> kw @ post" using strip_prefix_iff[of kw s] by auto
    with None show ?thesis by (simp add: match_here_def)
  next
    case (Some behind)
    then have s: "s = kw @ behind" by (simp add: strip_prefix_iff)
    with Some assms fc show ?thesis by (auto simp: match_here_def)
  qed
qed

lemma search_word_iff:
  assumes "kw \<noteq> []"
  shows "search_word prev kw s \<longleftrightarrow>
     (\<exists>pre post. s = pre @ kw @ post
        \<and> word_boundary (if pre = [] then prev else Some (last pre)) (Some (hd kw))
        \<and> word_boundary (Some (last kw)) (first_char post))"
proof (induction s arbitrary: prev)
  case Nil
  then show ?case using assms by (simp add: match_here_iff)
next
  case (Cons c rest)
  let ?P = "\<lambda>prev s pre post. s = pre @ kw @ post
        \<and> word_boundary (if pre = [] then prev else Some (last pre)) (Some (hd kw))
        \<and> word_boundary (Some (last kw)) (first_char post)"
  have sw: "search_word prev kw (c # rest) \<longleftrightarrow> match_here prev kw (c # rest) \<or> search_word (Some c) kw rest"
    by simp
  have here: "match_here prev kw (c # rest) \<longleftrightarrow> (\<exists>post. ?P prev (c # rest) [] post)"
    using match_here_iff[OF assms, of prev "c # rest"] by simp
  have later: "search_word (Some c) kw rest \<longleftrightarrow> (\<exists>pre post. ?P (Some c) rest pre post)"
    by (rule Cons.IH)
  have shift: "?P (Some c) rest pre post \<longleftrightarrow> ?P prev (c # rest) (c # pre) post" for pre post
    by (cases "pre = []") simp_all
  show ?case
  proof
    assume "search_word prev kw (c # rest)"
    with sw here later consider post where "?P prev (c # rest) [] post"
      | pre post where "?P (Some c) rest pre post" by blast
    then show "\<exists>pre post. ?P prev (c # rest) pre post"
    proof cases
      case 1
      then show ?thesis by blast
    next
      case 2
      then have "?P prev (c # rest) (c # pre) post" using shift by blast
      then show ?thesis by blast
    qed
  next
    assume "\<exists>pre post. ?P prev (c # rest) pre post"
    then obtain pre post where p: "?P prev (c # rest) pre post" by blast
    show "search_word prev kw (c # rest)"
    proof (cases pre)
      case Nil
      with p have "?P prev (c # rest) [] post" by simp
      with here sw show ?thesis by blast
    next
      case (Cons d pre')
      with p have "d = c" by simp
      with p Cons have "?P prev (c # rest) (c # pre') post" by simp
      then have "?P (Some c) rest pre' post" using shift by blast
      with later sw show ?thesis by blast
    qed
  qed
qed

lemma search_word_whole_word:
  assumes "kw \<noteq> []" and "is_word_char (hd kw)" and "is_word_char (last kw)"
  shows "search_word None kw s \<longleftrightarrow> spec_whole_word kw s"
proof -
  have a: "word_boundary (if pre = [] then None else Some (last pre)) (Some (hd kw))
      \<longleftrightarrow> (pre = [] \<or> \<not> is_word_char (last pre))" for pre
    using assms(2) by (simp add: word_boundary_def)
  have b: "word_boundary (Some (last kw)) (first_char post)
      \<longleftrightarrow> (post = [] \<or> \<not> is_word_char (hd post))" for post
    using assms(3) by (cases post) (simp_all add: word_boundary_def first_char_def)
  show ?thesis
    unfolding search_word_iff[OF assms(1)] spec_whole_word_def a b ..
qed

lemma keywords_wordlike_all:
  "list_all (\<lambda>(level, keywords).
      list_all (\<lambda>kw. kw \<noteq> [] \<and> is_word_char (hd kw) \<and> is_word_char (last kw)) keywords)
     BLOOM_KEYWORDS"
  by code_simp

lemma keywords_wordlike:
  assumes "kw \<in> set (keywords_of level)"
  shows "kw \<noteq> [] \<and> is_word_char (hd kw) \<and> is_word_char (last kw)"
proof (cases "map_of BLOOM_KEYWORDS level")
  case None
  with assms show ?thesis by (simp add: keywords_of_def)
next
  case (Some ks)
  with assms have k: "kw \<in> set ks" by (simp add: keywords_of_def)
  from Some have "(level, ks) \<in> set BLOOM_KEYWORDS" by (rule map_of_SomeD)
  with keywords_wordlike_all k show ?thesis
    by (auto simp: list_all_iff)
qed

lemma keyword_count_level_score:
  "keyword_count t level = level_score (lower t) (keywords_of level)"
proof -
  have "map_of (level_scores (lower t)) = map_option (level_score (lower t)) \<circ> map_of BLOOM_KEYWORDS"
    unfolding level_scores_def by (rule map_of_map)
  then show ?thesis
    by (simp add: keyword_count_def score_of_def keywords_of_def level_score_def split: option.splits)
qed

lemma keyword_count_whole_words:
  "keyword_count t level
     = length (filter (\<lambda>kw. spec_whole_word kw (lower t)) (keywords_of level))"
proof -
  have "filter (\<lambda>kw. search_word None kw (lower t)) (keywords_of level)
      = filter (\<lambda>kw. spec_whole_word kw (lower t)) (keywords_of level)"
    by (rule filter_cong[OF refl]) (simp add: keywords_wordlike search_word_whole_word)
  then show ?thesis by (simp add: keyword_count_level_score level_score_def)
qed

lemma select_compare_lower:
  "lower ''Select and compare the sorting algorithms.'' = ''select and compare the sorting algorithms.''"
  by code_simp

lemma select_compare_scores:
  "level_scores ''select and compare the sorting algorithms.'' =
     [(''Remember'', 1), (''Understand'', 1), (''Apply'', 0), (''Analyze'', 2), (''Evaluate'', 0),
      (''Create'', 0)]"
  by code_simp

lemma select_compare_remember:
  "filter (\<lambda>kw. search_word None kw ''select and compare the sorting algorithms.'')
     (keywords_of ''Remember'') = [''select'']"
  by code_simp

lemma select_compare_understand:
  "filter (\<lambda>kw. search_word None kw ''select and compare the sorting algorithms.'')
     (keywords_of ''Understand'') = [''compare'']"
  by code_simp

text \<open>
  Claim C6 ends with: a text containing exactly one keyword from the Remember set and
  one from the Understand set classifies as Remember. Some keywords belong to two
  levels. The text below holds exactly one keyword of Remember, \<open>select\<close>, and exactly
  one of Understand, \<open>compare\<close>; both are keywords of Analyze as well, so Analyze counts
  two and is returned.
\<close>

theorem one_remember_one_understand_gives_analyze:
  "filter (\<lambda>kw. search_word None kw (lower ''Select and compare the sorting algorithms.''))
     (keywords_of ''Remember'') = [''select'']
   \<and> filter (\<lambda>kw. search_word None kw (lower ''Select and compare the sorting algorithms.''))
     (keywords_of ''Understand'') = [''compare'']
   \<and> map (keyword_count ''Select and compare the sorting algorithms.'') bloom_order = [1, 1, 0, 2, 0, 0]
   \<and> determine_bloom_level ''Select and compare the sorting algorithms.'' = ''Analyze''
   \<and> determine_bloom_level ''Select and compare the sorting algorithms.'' \<noteq> ''Remember''"
proof -
  have k: "map (keyword_count ''Select and compare the sorting algorithms.'') bloom_order
      = [1, 1, 0, 2, 0, 0]"
    by (simp add: keyword_count_def select_compare_lower select_compare_scores score_of_def
          bloom_order_def)
  have d: "determine_bloom_level ''Select and compare the sorting algorithms.'' = ''Analyze''"
    by (simp add: determine_bloom_level_def select_compare_lower select_compare_scores
          py_max_key_def score_of_def Let_def)
  from k d select_compare_remember select_compare_understand show ?thesis
    by (simp add: select_compare_lower)
qed

text \<open>
  Claim C6, amended. The score of a level is the number of its keywords that occur in the
  lowered text as whole words. For every question text in which at least one keyword of
  some level matches, \<^verbatim>\<open>determine_bloom_level\<close> returns the first level with the
  highest score in the order Remember, Understand, Apply, Analyze, Evaluate, Create:
  every level before the returned one scores strictly less and every level after it
  scores no more. In particular a text that holds exactly one keyword of Remember and
  one of Understand classifies as Remember provided no level scores more than one, that
  is, provided the two tie for the highest score.
\<close>

theorem determine_bloom_level_first_max:
  assumes "\<exists>level\<in>set bloom_order. keyword_count question_text level > 0"
  shows "(\<forall>level. keyword_count question_text level
              = length (filter (\<lambda>kw. spec_whole_word kw (lower question_text)) (keywords_of level)))
       \<and> (\<exists>pre post. bloom_order = pre @ determine_bloom_level question_text # post
            \<and> (\<forall>l\<in>set pre. keyword_count question_text l
                    < keyword_count question_text (determine_bloom_level question_text))
            \<and> (\<forall>l\<in>set post. keyword_count question_text l
                    \<le> keyword_count question_text (determine_bloom_level question_text)))
       \<and> (keyword_count question_text ''Remember'' = 1
            \<and> keyword_count question_text ''Understand'' = 1
            \<and> (\<forall>l\<in>set bloom_order. keyword_count question_text l \<le> 1)
          \<longrightarrow> determine_bloom_level question_text = ''Remember'')"
proof -
  let ?scores = "level_scores (lower question_text)"
  let ?r = "determine_bloom_level question_text"
  from assms obtain level where "level \<in> set bloom_order" "score_of ?scores level > 0"
    by (auto simp: keyword_count_def)
  then have "Max (set (map snd ?scores)) \<noteq> 0" by (rule scores_not_all_zero)
  then have r: "?r = py_max_key (score_of ?scores) (hd bloom_order) (tl bloom_order)"
    by (simp add: determine_bloom_level_def Let_def map_fst_level_scores)
  have "hd bloom_order # tl bloom_order = bloom_order" by (simp add: bloom_order_def)
  with py_max_key_first[of "hd bloom_order" "tl bloom_order" "score_of ?scores"] r
  obtain pre post where d: "bloom_order = pre @ ?r # post"
    and lt: "\<forall>l\<in>set pre. score_of ?scores l < score_of ?scores ?r"
    and le: "\<forall>l\<in>set post. score_of ?scores l \<le> score_of ?scores ?r"
    by metis
  have first: "\<exists>pre post. bloom_order = pre @ ?r # post
            \<and> (\<forall>l\<in>set pre. keyword_count question_text l < keyword_count question_text ?r)
            \<and> (\<forall>l\<in>set post. keyword_count question_text l \<le> keyword_count question_text ?r)"
    using d lt le unfolding keyword_count_def by blast
  have tie: "?r = ''Remember''"
    if one: "keyword_count question_text ''Remember'' = 1"
      and all: "\<forall>l\<in>set bloom_order. keyword_count question_text l \<le> 1"
  proof (rule ccontr)
    assume ne: "?r \<noteq> ''Remember''"
    have "hd bloom_order = ''Remember''" by (simp add: bloom_order_def)
    with d ne have "pre \<noteq> []" by (metis append_Nil list.sel(1))
    with d have "hd pre = hd bloom_order" by (metis hd_append2)
    with \<open>pre \<noteq> []\<close> \<open>hd bloom_order = ''Remember''\<close> have "''Remember'' \<in> set pre"
      by (metis hd_in_set)
    with lt have "keyword_count question_text ''Remember'' < keyword_count question_text ?r"
      by (simp add: keyword_count_def)
    moreover have "?r \<in> set bloom_order" using d by (metis in_set_conv_decomp)
    ultimately show False using one all by fastforce
  qed
  have whole: "\<forall>level. keyword_count question_text level
      = length (filter (\<lambda>kw. spec_whole_word kw (lower question_text)) (keywords_of level))"
    by (simp add: keyword_count_whole_words)
  from whole first tie show ?thesis by blast
qed

lemma whole_word_examples:
  "search_word None ''define'' ''redefine the listing.'' = False"
  "search_word None ''list'' ''redefine the listing.'' = False"
  "search_word None ''list'' ''define the list.'' = True"
  "search_word None ''what is'' ''what is a stack?'' = True"
  "search_word None ''what is'' ''what isolates a stack?'' = False"
  by code_simp+

theorem determine_bloom_level_first_max_witness:
  "keyword_count ''Define and explain Recursion.'' ''Remember'' = 1
   \<and> keyword_count ''Define and explain Recursion.'' ''Understand'' = 1
   \<and> map (keyword_count ''Define and explain Recursion.'') bloom_order = [1, 1, 0, 0, 0, 0]
   \<and> determine_bloom_level ''Define and explain Recursion.'' = ''Remember''
   \<and> length (filter (\<lambda>kw. spec_whole_word kw (lower ''Define and explain Recursion.''))
         (keywords_of ''Remember'')) = 1
   \<and> search_word None ''define'' ''redefine the listing.'' = False
   \<and> search_word None ''list'' ''redefine the listing.'' = False
   \<and> search_word None ''list'' ''define the list.'' = True"
proof -
  have k: "map (keyword_count ''Define and explain Recursion.'') bloom_order = [1, 1, 0, 0, 0, 0]"
    by (simp add: keyword_count_def example_lower example_scores score_of_def bloom_order_def)
  then have a: "keyword_count ''Define and explain Recursion.'' ''Remember'' = 1"
    and b: "keyword_count ''Define and explain Recursion.'' ''Understand'' = 1"
    by (simp_all add: bloom_order_def)
  from k have all: "\<forall>l\<in>set bloom_order. keyword_count ''Define and explain Recursion.'' l \<le> 1"
    by (simp add: bloom_order_def)
  have ex: "\<exists>level\<in>set bloom_order. keyword_count ''Define and explain Recursion.'' level > 0"
    using a by (auto simp: bloom_order_def)
  note t = determine_bloom_level_first_max[OF ex]
  from t a b all
  have r: "determine_bloom_level ''Define and explain Recursion.'' = ''Remember''" by blast
  from t a
  have w: "length (filter (\<lambda>kw. spec_whole_word kw (lower ''Define and explain Recursion.''))
         (keywords_of ''Remember'')) = 1"
    by metis
  from k a b r w whole_word_examples show ?thesis by simp
qed

subsection \<open>Concept extraction and the order of a set\<close>

lemma valid_set_order_remdups: "valid_set_order remdups"
  by (simp add: valid_set_order_def)

lemma valid_set_order_rev_remdups: "valid_set_order (rev \<circ> remdups)"
  by (simp add: valid_set_order_def)

lemma cleaned_concepts_length:
  "c \<in> set (cleaned_concepts text) \<Longrightarrow> length c > 3"
  by (auto simp: cleaned_concepts_def)

lemma example_cleaned:
  "cleaned_concepts ''Define Data Structures. It is called Linked List.'' =
     [''Define Data Structures'', ''Linked List'', ''Data Structures'', ''Linked List'',
      ''Define'', ''Data'', ''Structures'', ''Linked'', ''List'']"
  by code_simp

text \<open>
  Claim C8 says that two invocations of the extractor on the same text return the
  identical ordered list, whatever other state or randomness there is. The extractor
  uses no random source, but its last step is \<^verbatim>\<open>list(set(...))\<close>, and the order of a
  set of strings is given by the string hashes of the running process. Under two orders
  of the same set the text below yields the same eight topics in different orders.
\<close>

theorem extract_key_concepts_order_dependent:
  "valid_set_order remdups \<and> valid_set_order (rev \<circ> remdups)
   \<and> extract_key_concepts remdups ''Define Data Structures. It is called Linked List.'' =
       [''Define Data Structures'', ''Data Structures'', ''Linked List'', ''Define'', ''Data'',
        ''Structures'', ''Linked'', ''List'']
   \<and> extract_key_concepts (rev \<circ> remdups) ''Define Data Structures. It is called Linked List.'' =
       [''List'', ''Linked'', ''Structures'', ''Data'', ''Define'', ''Linked List'',
        ''Data Structures'', ''Define Data Structures'']
   \<and> extract_key_concepts remdups ''Define Data Structures. It is called Linked List.''
       \<noteq> extract_key_concepts (rev \<circ> remdups) ''Define Data Structures. It is called Linked List.''"
  by (simp add: valid_set_order_remdups valid_set_order_rev_remdups extract_key_concepts_def
        example_cleaned)

text \<open>
  Claim C8, amended. For every unit text and every order in which the set is iterated,
  the extractor returns at most 15 strings, all different, each longer than three
  characters and each among the concepts collected from the text by the three methods.
  Two invocations under the same set order return the identical list. Under different
  set orders they return the same topics as a set whenever the text has at most 15
  distinct concepts; the order of the list, and beyond 15 concepts the choice of the
  15, follows the set order.
\<close>

theorem extract_key_concepts_properties:
  assumes "valid_set_order order1" and "valid_set_order order2"
  shows "length (extract_key_concepts order1 text) \<le> 15
       \<and> distinct (extract_key_concepts order1 text)
       \<and> set (extract_key_concepts order1 text) \<subseteq> set (cleaned_concepts text)
       \<and> (\<forall>c\<in>set (extract_key_concepts order1 text). length c > 3)
       \<and> (card (set (cleaned_concepts text)) \<le> 15 \<longrightarrow>
            set (extract_key_concepts order1 text) = set (cleaned_concepts text)
            \<and> set (extract_key_concepts order2 text) = set (extract_key_concepts order1 text))
       \<and> (order1 = order2 \<longrightarrow> extract_key_concepts order1 text = extract_key_concepts order2 text)"
proof -
  let ?xs = "cleaned_concepts text"
  have v: "distinct (order xs) \<and> set (order xs) = set xs"
    if "valid_set_order order" for order xs
    using that by (simp add: valid_set_order_def)
  have len: "length (extract_key_concepts order1 text) \<le> 15"
    by (simp add: extract_key_concepts_def)
  have dist: "distinct (extract_key_concepts order1 text)"
    using v[OF assms(1)] by (simp add: extract_key_concepts_def)
  have sub: "set (extract_key_concepts order1 text) \<subseteq> set ?xs"
    using v[OF assms(1), of ?xs] set_take_subset[of 15 "order1 ?xs"]
    by (simp add: extract_key_concepts_def)
  have long: "\<forall>c\<in>set (extract_key_concepts order1 text). length c > 3"
    using sub cleaned_concepts_length by blast
  have all: "set (extract_key_concepts order text) = set ?xs"
    if "valid_set_order order" and "card (set ?xs) \<le> 15" for order
  proof -
    from v[OF that(1), of ?xs] have "length (order ?xs) = card (set ?xs)"
      by (metis distinct_card)
    with that(2) have "take 15 (order ?xs) = order ?xs" by simp
    with v[OF that(1), of ?xs] show ?thesis by (simp add: extract_key_concepts_def)
  qed
  from len dist sub long all[OF assms(1)] all[OF assms(2)] show ?thesis by simp
qed

theorem extract_key_concepts_properties_witness:
  "valid_set_order remdups \<and> valid_set_order (rev \<circ> remdups)
   \<and> length (extract_key_concepts remdups ''Define Data Structures. It is called Linked List.'') = 8
   \<and> set (extract_key_concepts (rev \<circ> remdups) ''Define Data Structures. It is called Linked List.'')
       = set (extract_key_concepts remdups ''Define Data Structures. It is called Linked List.'')"
proof -
  have "length (cleaned_concepts ''Define Data Structures. It is called Linked List.'') = 9"
    by (simp add: example_cleaned)
  moreover have "card (set (cleaned_concepts ''Define Data Structures. It is called Linked List.''))
      \<le> length (cleaned_concepts ''Define Data Structures. It is called Linked List.'')"
    by (rule card_length)
  ultimately have c: "card (set (cleaned_concepts ''Define Data Structures. It is called Linked List.'')) \<le> 15"
    by linarith
  have l: "length (extract_key_concepts remdups ''Define Data Structures. It is called Linked List.'') = 8"
    by (simp add: extract_key_concepts_def example_cleaned)
  from extract_key_concepts_properties[OF valid_set_order_remdups valid_set_order_rev_remdups,
      of "''Define Data Structures. It is called Linked List.''"] c l
  show ?thesis by (simp add: valid_set_order_remdups valid_set_order_rev_remdups)
qed

end
